theory Spec2Isabelle
  imports Main "HOL-Library.Word"
begin

section \<open>The buffer manager of \<^verbatim>\<open>buffer_mgr.c\<close>\<close>

text \<open>
  The development embeds the functions of \<^verbatim>\<open>src/buffer_mgr.c\<close> as HOL functions over
  an explicit state. The state is the \<^verbatim>\<open>BM_BufferPool\<close> struct together with the part
  of the environment the functions talk to: the C library calls \<^verbatim>\<open>fopen\<close>,
  \<^verbatim>\<open>calloc\<close>, \<^verbatim>\<open>fread\<close> and \<^verbatim>\<open>fwrite\<close>.

  \<^item> A C \<^verbatim>\<open>int\<close> is a 32-bit word, read as a signed number by \<open>sint\<close> wherever the
    code compares it. Signed overflow is undefined in C; the model takes the
    wrap-around that \<^verbatim>\<open>++\<close> and \<^verbatim>\<open>*\<close> have on the usual targets.
  \<^item> A loop counter or frame index is a position in the list of frames; the victim index
    is an \<^typ>\<open>int\<close>, with \<open>- 1\<close> for none.
  \<^item> A pointer that the code tests against \<^verbatim>\<open>NULL\<close> is an \<^typ>\<open>'a option\<close>.
  \<^item> The frame array \<^verbatim>\<open>mgmtData\<close> with its length \<^verbatim>\<open>numPages\<close> is a list; every
    loop \<^verbatim>\<open>while (counter < pool->numPages)\<close> is a recursion over that list.
  \<^item> Every function returns its \<^verbatim>\<open>RC\<close> together with the state it leaves behind.
\<close>

subsection \<open>Types\<close>

text \<open>
  Return codes of \<^verbatim>\<open>dberror.h\<close>, as far as \<^verbatim>\<open>buffer_mgr.c\<close> uses them. The header is
  not part of the sources; the codes are taken to be pairwise different.
\<close>

datatype RC =
    RC_OK
  | RC_FILE_NOT_FOUND
  | RC_MEMORY_ALLOCATION_ERROR
  | RC_POOL_NOT_INIT
  | RC_SHUTDOWN_POOL_FAILED
  | RC_PAGE_NOT_FOUND
  | RC_PAGE_NOT_PINNED
  | RC_NEGATIVE_PAGE_NUM
  | RC_NO_AVAILABLE_FRAME

text \<open>
  Modelled from the spec: the enumeration \<^verbatim>\<open>ReplacementStrategy\<close> of the missing header
  \<^verbatim>\<open>buffer_mgr.h\<close>, with the three tags the specification lists (FIFO, LRU, LRU-K).
  The code only ever compares the tag with \<^verbatim>\<open>RS_LRU\<close> and \<^verbatim>\<open>RS_LRU_K\<close>.
\<close>

datatype ReplacementStrategy = RS_FIFO | RS_LRU | RS_LRU_K

type_synonym c_int = "32 word"

type_synonym PageNumber = c_int

type_synonym page_data = string

text \<open>
  Modelled from the spec: the macros \<^verbatim>\<open>NO_PAGE\<close> (the sentinel page number of an empty
  frame) and \<^verbatim>\<open>PAGE_SIZE\<close> of the missing headers. The sentinel is negative, so that
  it is no page number \<^verbatim>\<open>pinPage\<close> accepts.
\<close>

definition NO_PAGE :: PageNumber where
  "NO_PAGE = - 1"

definition PAGE_SIZE :: c_int where
  "PAGE_SIZE = 4096"

text \<open>The struct \<^verbatim>\<open>BM_PageHandle\<close>: a frame of the pool, and the handle a client gets.\<close>

record BM_PageHandle =
  pageNum :: PageNumber
  data :: "page_data option"
  dirty :: bool
  fixCounts :: c_int
  strategyAttribute :: "c_int option"

text \<open>
  The struct \<^verbatim>\<open>BM_BufferPool\<close>, followed by the environment:
  \<^item> \<open>fopen_ok k\<close> tells whether the \<open>k\<close>-th call of \<^verbatim>\<open>fopen\<close> returns a stream,
    \<open>fopens\<close> counts the calls made so far;
  \<^item> \<open>calloc_ok k\<close> and \<open>callocs\<close> do the same for \<^verbatim>\<open>calloc\<close>;
  \<^item> \<open>fread_in k\<close> is what the buffer holds after the \<^verbatim>\<open>fread\<close> on the stream of the
    \<open>k\<close>-th \<^verbatim>\<open>fopen\<close>;
  \<^item> \<open>fwrite_ok k\<close> tells whether the \<^verbatim>\<open>fwrite\<close> on the stream of the \<open>k\<close>-th \<^verbatim>\<open>fopen\<close>
    writes its buffer to the file;
  \<^item> \<open>written\<close> lists, oldest first, the offset given to \<^verbatim>\<open>fseek\<close> and the buffer
    given to \<^verbatim>\<open>fwrite\<close> for each call of \<^verbatim>\<open>fwrite\<close>, whether it succeeds or not.
  The results of \<^verbatim>\<open>fseek\<close>, \<^verbatim>\<open>fread\<close>, \<^verbatim>\<open>fwrite\<close> and \<^verbatim>\<open>fclose\<close> are ignored by
  the code (lines 190-193 and 274-277), so no function of the model reads \<open>fwrite_ok\<close>: the
  field only says which calls of \<^verbatim>\<open>fwrite\<close> fail. The header that declares the struct is
  not part of the sources; the two counters and the clock \<^verbatim>\<open>buffertimer\<close> are taken to be
  \<^verbatim>\<open>int\<close>, as the attribute of a frame (line 456) and the local that receives the clock
  (line 373) are.
\<close>

record BM_BufferPool =
  pageFile :: string
  strategy :: ReplacementStrategy
  mgmtData :: "BM_PageHandle list option"
  numberReadIO :: c_int
  numberWriteIO :: c_int
  buffertimer :: c_int
  fopen_ok :: "nat \<Rightarrow> bool"
  fopens :: nat
  calloc_ok :: "nat \<Rightarrow> bool"
  callocs :: nat
  fread_in :: "nat \<Rightarrow> page_data"
  fwrite_ok :: "nat \<Rightarrow> bool"
  written :: "(c_int \<times> page_data option) list"

subsection \<open>Helpers shared by the functions\<close>

definition frames :: "BM_BufferPool \<Rightarrow> BM_PageHandle list" where
  "frames s = (case mgmtData s of None \<Rightarrow> [] | Some fs \<Rightarrow> fs)"

definition put_frame :: "BM_BufferPool \<Rightarrow> nat \<Rightarrow> BM_PageHandle \<Rightarrow> BM_BufferPool" where
  "put_frame s i f = s\<lparr>mgmtData := Some ((frames s)[i := f])\<rparr>"

text \<open>
  The scan \<^verbatim>\<open>while (counter < numPages) { if (mgmtData[counter].pageNum == p) ... }\<close>
  that \<^verbatim>\<open>markDirty\<close>, \<^verbatim>\<open>unpinPage\<close>, \<^verbatim>\<open>forcePage\<close> and \<^verbatim>\<open>pinPage\<close> (twice) start with:
  the first index whose frame holds page \<open>p\<close>.
\<close>

fun findPage :: "BM_PageHandle list \<Rightarrow> PageNumber \<Rightarrow> nat option" where
  "findPage [] p = None"
| "findPage (f # fs) p =
     (if pageNum f = p then Some 0 else map_option Suc (findPage fs p))"

text \<open>The frame \<^verbatim>\<open>initBufferPool\<close> writes into every slot.\<close>

definition empty_frame :: BM_PageHandle where
  "empty_frame =
     \<lparr>pageNum = NO_PAGE, data = None, dirty = False, fixCounts = 0, strategyAttribute = None\<rparr>"

text \<open>What \<^verbatim>\<open>calloc(PAGE_SIZE, sizeof(char))\<close> returns when it succeeds.\<close>

definition zero_page :: page_data where
  "zero_page = replicate (unat PAGE_SIZE) (CHR 0x00)"

subsection \<open>initBufferPool (lines 17-54)\<close>

definition initBufferPool ::
  "BM_BufferPool \<Rightarrow> string \<Rightarrow> c_int \<Rightarrow> ReplacementStrategy \<Rightarrow> RC \<times> BM_BufferPool" where
  "initBufferPool s fileName numFrames strat =
     (if fopen_ok s (fopens s) then
        (let s1 = s\<lparr>fopens := Suc (fopens s), pageFile := fileName, strategy := strat,
                     numberReadIO := 0, numberWriteIO := 0, buffertimer := 0\<rparr>
         in if calloc_ok s1 (callocs s1) then
              (RC_OK, s1\<lparr>callocs := Suc (callocs s1),
                         mgmtData := Some (replicate (nat (sint numFrames)) empty_frame)\<rparr>)
            else
              (RC_MEMORY_ALLOCATION_ERROR, s1\<lparr>callocs := Suc (callocs s1), mgmtData := None\<rparr>))
      else (RC_FILE_NOT_FOUND, s\<lparr>fopens := Suc (fopens s)\<rparr>))"

subsection \<open>forcePage (lines 177-202)\<close>

definition forcePage :: "BM_BufferPool \<Rightarrow> BM_PageHandle \<Rightarrow> RC \<times> BM_BufferPool" where
  "forcePage s page =
     (case mgmtData s of
        None \<Rightarrow> (RC_POOL_NOT_INIT, s)
      | Some fs \<Rightarrow>
          (case findPage fs (pageNum page) of
             None \<Rightarrow> (RC_PAGE_NOT_FOUND, s)
           | Some counter \<Rightarrow>
               if \<not> fopen_ok s (fopens s) then
                 (RC_FILE_NOT_FOUND, s\<lparr>fopens := Suc (fopens s)\<rparr>)
               else
                 (RC_OK,
                  s\<lparr>fopens := Suc (fopens s),
                    written := written s @ [(pageNum page * PAGE_SIZE, data (fs ! counter))],
                    numberWriteIO := numberWriteIO s + 1,
                    mgmtData := Some (fs[counter := (fs ! counter)\<lparr>dirty := False\<rparr>])\<rparr>)))"

subsection \<open>forceFlushPool (lines 100-118)\<close>

text \<open>
  The loop body for the frame indices still to visit. \<^verbatim>\<open>forcePage\<close> is called with a
  pointer to the frame itself and looks its page number up again.
\<close>

fun flushFrames :: "nat list \<Rightarrow> BM_BufferPool \<Rightarrow> RC \<times> BM_BufferPool" where
  "flushFrames [] s = (RC_OK, s)"
| "flushFrames (counter # rest) s =
     (if dirty (frames s ! counter) \<and> fixCounts (frames s ! counter) = 0 then
        (case forcePage s (frames s ! counter) of
           (ret, s') \<Rightarrow>
             if ret \<noteq> RC_OK then (ret, s')
             else flushFrames rest (put_frame s' counter ((frames s' ! counter)\<lparr>dirty := False\<rparr>)))
      else flushFrames rest s)"

definition forceFlushPool :: "BM_BufferPool \<Rightarrow> RC \<times> BM_BufferPool" where
  "forceFlushPool s =
     (case mgmtData s of
        None \<Rightarrow> (RC_POOL_NOT_INIT, s)
      | Some fs \<Rightarrow> flushFrames [0..<length fs] s)"

subsection \<open>shutdownBufferPool (lines 66-90)\<close>

definition shutdownBufferPool :: "BM_BufferPool \<Rightarrow> RC \<times> BM_BufferPool" where
  "shutdownBufferPool s =
     (case mgmtData s of
        None \<Rightarrow> (RC_POOL_NOT_INIT, s)
      | Some fs \<Rightarrow>
          if list_ex (\<lambda>f. fixCounts f \<noteq> 0) fs then (RC_SHUTDOWN_POOL_FAILED, s)
          else
            (case forceFlushPool s of
               (retVal, s') \<Rightarrow>
                 if retVal \<noteq> RC_OK then (retVal, s')
                 else (RC_OK, s'\<lparr>mgmtData := None\<rparr>)))"

subsection \<open>markDirty (lines 127-141) and unpinPage (lines 151-168)\<close>

definition markDirty :: "BM_BufferPool \<Rightarrow> BM_PageHandle \<Rightarrow> RC \<times> BM_BufferPool" where
  "markDirty s page =
     (case mgmtData s of
        None \<Rightarrow> (RC_POOL_NOT_INIT, s)
      | Some fs \<Rightarrow>
          (case findPage fs (pageNum page) of
             None \<Rightarrow> (RC_PAGE_NOT_FOUND, s)
           | Some counter \<Rightarrow>
               (RC_OK, s\<lparr>mgmtData := Some (fs[counter := (fs ! counter)\<lparr>dirty := True\<rparr>])\<rparr>)))"

definition unpinPage :: "BM_BufferPool \<Rightarrow> BM_PageHandle \<Rightarrow> RC \<times> BM_BufferPool" where
  "unpinPage s page =
     (case mgmtData s of
        None \<Rightarrow> (RC_POOL_NOT_INIT, s)
      | Some fs \<Rightarrow>
          (case findPage fs (pageNum page) of
             None \<Rightarrow> (RC_PAGE_NOT_FOUND, s)
           | Some counter \<Rightarrow>
               if 0 < sint (fixCounts (fs ! counter)) then
                 (RC_OK,
                  s\<lparr>mgmtData :=
                      Some (fs[counter := (fs ! counter)\<lparr>fixCounts := fixCounts (fs ! counter) - 1\<rparr>])\<rparr>)
               else (RC_PAGE_NOT_PINNED, s)))"

subsection \<open>updateBfrAtrbt (lines 453-464)\<close>

text \<open>
  The handle the function is given is always a pointer to a frame of the pool, here the
  index of that frame.
\<close>

definition updateBfrAtrbt :: "BM_BufferPool \<Rightarrow> nat \<Rightarrow> RC \<times> BM_BufferPool" where
  "updateBfrAtrbt s i =
     (if strategyAttribute (frames s ! i) = None \<and> \<not> calloc_ok s (callocs s) then
        (RC_MEMORY_ALLOCATION_ERROR, s\<lparr>callocs := Suc (callocs s)\<rparr>)
      else
        (RC_OK,
         (put_frame s i ((frames s ! i)\<lparr>strategyAttribute := Some (buffertimer s)\<rparr>))
           \<lparr>callocs := (if strategyAttribute (frames s ! i) = None then Suc (callocs s)
                        else callocs s),
            buffertimer := buffertimer s + 1\<rparr>))"

subsection \<open>strategyForFIFOandLRU (lines 369-405)\<close>

text \<open>
  The scan of lines 375-392 over the frames from index \<open>counter\<close> on, with the running
  minimum and the victim found so far (\<open>- 1\<close> for none). The function does not test
  \<^verbatim>\<open>mgmtData\<close>; its one caller, \<^verbatim>\<open>pinPage\<close>, has done so.
\<close>

fun victimScan :: "BM_PageHandle list \<Rightarrow> nat \<Rightarrow> c_int \<Rightarrow> int \<Rightarrow> int" where
  "victimScan [] counter minValue victimIndex = victimIndex"
| "victimScan (f # fs) counter minValue victimIndex =
     (if fixCounts f \<noteq> 0 then victimScan fs (Suc counter) minValue victimIndex
      else
        (case strategyAttribute f of
           None \<Rightarrow> int counter
         | Some currentAttr \<Rightarrow>
             if sint currentAttr \<le> sint minValue then victimScan fs (Suc counter) currentAttr (int counter)
             else victimScan fs (Suc counter) minValue victimIndex))"

text \<open>Lines 398-402: every attribute that is present becomes 0.\<close>

definition resetAttribute :: "BM_PageHandle \<Rightarrow> BM_PageHandle" where
  "resetAttribute f =
     (case strategyAttribute f of None \<Rightarrow> f | Some a \<Rightarrow> f\<lparr>strategyAttribute := Some 0\<rparr>)"

definition normalizeTimer :: "BM_BufferPool \<Rightarrow> BM_BufferPool" where
  "normalizeTimer s =
     (if 32000 < sint (buffertimer s) then
        s\<lparr>buffertimer := 0, mgmtData := map_option (map resetAttribute) (mgmtData s)\<rparr>
      else s)"

definition strategyForFIFOandLRU :: "BM_BufferPool \<Rightarrow> int \<times> BM_BufferPool" where
  "strategyForFIFOandLRU s = (victimScan (frames s) 0 (buffertimer s) (- 1), normalizeTimer s)"

subsection \<open>pinPage (lines 214-288)\<close>

text \<open>
  Lines 263-287: load page \<open>pNum\<close> into the frame \<open>frameIndex\<close>. The result carries the
  handle of the caller, which is overwritten only when the page is loaded.
\<close>

definition loadPage ::
  "BM_BufferPool \<Rightarrow> BM_PageHandle \<Rightarrow> nat \<Rightarrow> PageNumber \<Rightarrow> RC \<times> BM_BufferPool \<times> BM_PageHandle" where
  "loadPage s page frameIndex pNum =
     (let needs = (data (frames s ! frameIndex) = None);
          s1 = (if needs then s\<lparr>callocs := Suc (callocs s)\<rparr> else s)
      in
        if needs \<and> \<not> calloc_ok s (callocs s) then (RC_MEMORY_ALLOCATION_ERROR, s1, page)
        else
          (let s2 = (if needs
                     then put_frame s1 frameIndex ((frames s1 ! frameIndex)\<lparr>data := Some zero_page\<rparr>)
                     else s1)
           in
             if \<not> fopen_ok s2 (fopens s2) then
               (RC_FILE_NOT_FOUND, s2\<lparr>fopens := Suc (fopens s2)\<rparr>, page)
             else
               (let s3 = (put_frame s2 frameIndex
                            ((frames s2 ! frameIndex)
                               \<lparr>pageNum := pNum, data := Some (fread_in s2 (fopens s2)),
                                dirty := False, fixCounts := 1\<rparr>))
                          \<lparr>fopens := Suc (fopens s2), numberReadIO := numberReadIO s2 + 1\<rparr>;
                    s4 = snd (updateBfrAtrbt s3 frameIndex)
                in (RC_OK, s4, frames s4 ! frameIndex))))"

definition pinPage ::
  "BM_BufferPool \<Rightarrow> BM_PageHandle \<Rightarrow> PageNumber \<Rightarrow> RC \<times> BM_BufferPool \<times> BM_PageHandle" where
  "pinPage s page pNum =
     (case mgmtData s of
        None \<Rightarrow> (RC_POOL_NOT_INIT, s, page)
      | Some fs \<Rightarrow>
          if sint pNum < 0 then (RC_NEGATIVE_PAGE_NUM, s, page)
          else
            (case findPage fs pNum of
               Some counter \<Rightarrow>
                 (let s1 = (if strategy s = RS_LRU \<or> strategy s = RS_LRU_K
                            then snd (updateBfrAtrbt s counter) else s);
                      s2 = put_frame s1 counter
                             ((frames s1 ! counter)\<lparr>fixCounts := fixCounts (frames s1 ! counter) + 1\<rparr>)
                  in (RC_OK, s2, frames s2 ! counter))
             | None \<Rightarrow>
                 (case findPage fs NO_PAGE of
                    Some frameIndex \<Rightarrow> loadPage s page frameIndex pNum
                  | None \<Rightarrow>
                      (case strategyForFIFOandLRU s of
                         (frameIndex, s1) \<Rightarrow>
                           if frameIndex = - 1 then (RC_NO_AVAILABLE_FRAME, s1, page)
                           else if dirty (frames s1 ! nat frameIndex) then
                             (case forcePage s1 (frames s1 ! nat frameIndex) of
                                (retVal, s2) \<Rightarrow>
                                  if retVal \<noteq> RC_OK then (retVal, s2, page)
                                  else loadPage s2 page (nat frameIndex) pNum)
                           else loadPage s1 page (nat frameIndex) pNum))))"

subsection \<open>Sequences of operations\<close>

datatype operation =
    InitBufferPool string c_int ReplacementStrategy
  | PinPage BM_PageHandle PageNumber
  | UnpinPage BM_PageHandle
  | MarkDirty BM_PageHandle
  | ForceFlushPool
  | ForcePage BM_PageHandle
  | ShutdownBufferPool

fun step :: "BM_BufferPool \<Rightarrow> operation \<Rightarrow> BM_BufferPool" where
  "step s (InitBufferPool fileName numFrames strat) = snd (initBufferPool s fileName numFrames strat)"
| "step s (PinPage page pNum) = fst (snd (pinPage s page pNum))"
| "step s (UnpinPage page) = snd (unpinPage s page)"
| "step s (MarkDirty page) = snd (markDirty s page)"
| "step s ForceFlushPool = snd (forceFlushPool s)"
| "step s (ForcePage page) = snd (forcePage s page)"
| "step s ShutdownBufferPool = snd (shutdownBufferPool s)"

fun run :: "BM_BufferPool \<Rightarrow> operation list \<Rightarrow> BM_BufferPool" where
  "run s [] = s"
| "run s (x # xs) = run (step s x) xs"

subsection \<open>Invariants of the frame array\<close>

text \<open>
  \<open>inv_first\<close>: a frame that holds a page, or is dirty, is the first frame with its page
  number. \<open>inv_pinned\<close>: a frame with a fix count holds a page.
\<close>

definition inv_first :: "BM_PageHandle list \<Rightarrow> bool" where
  "inv_first fs \<longleftrightarrow>
     (\<forall>i<length fs. pageNum (fs ! i) \<noteq> NO_PAGE \<or> dirty (fs ! i) \<longrightarrow>
        (\<forall>j<i. pageNum (fs ! j) \<noteq> pageNum (fs ! i)))"

definition inv_pinned :: "BM_PageHandle list \<Rightarrow> bool" where
  "inv_pinned fs \<longleftrightarrow> (\<forall>f \<in> set fs. fixCounts f \<noteq> 0 \<longrightarrow> pageNum f \<noteq> NO_PAGE)"

definition pool_inv :: "BM_BufferPool \<Rightarrow> bool" where
  "pool_inv s \<longleftrightarrow>
     inv_first (frames s) \<and> inv_pinned (frames s)"

text \<open>The frame and the state of \<^verbatim>\<open>pinPage\<close> at line 283, before the attribute is stamped.\<close>

definition loadedFrame :: "BM_BufferPool \<Rightarrow> nat \<Rightarrow> PageNumber \<Rightarrow> BM_PageHandle" where
  "loadedFrame s i pNum =
     (frames s ! i)\<lparr>pageNum := pNum, data := Some (fread_in s (fopens s)), dirty := False,
                     fixCounts := 1\<rparr>"

definition loadState :: "BM_BufferPool \<Rightarrow> nat \<Rightarrow> PageNumber \<Rightarrow> BM_BufferPool" where
  "loadState s i pNum =
     (put_frame (s\<lparr>callocs := (if data (frames s ! i) = None then Suc (callocs s) else callocs s)\<rparr>)
        i (loadedFrame s i pNum))
       \<lparr>fopens := Suc (fopens s), numberReadIO := numberReadIO s + 1\<rparr>"

subsection \<open>An example environment\<close>

text \<open>
  A pool that is not initialised, in an environment where every \<^verbatim>\<open>fopen\<close>, \<^verbatim>\<open>calloc\<close>
  and \<^verbatim>\<open>fwrite\<close> succeeds and every page of the file reads as the empty string; and the
  handle a client passes to name page \<open>p\<close>.
\<close>

definition fresh_pool :: BM_BufferPool where
  "fresh_pool =
     \<lparr>pageFile = [], strategy = RS_FIFO, mgmtData = None, numberReadIO = 0, numberWriteIO = 0,
      buffertimer = 0, fopen_ok = (\<lambda>k. True), fopens = 0, calloc_ok = (\<lambda>k. True), callocs = 0,
      fread_in = (\<lambda>k. []),
      fwrite_ok = (\<lambda>k. True), written = []\<rparr>"

definition handle :: "PageNumber \<Rightarrow> BM_PageHandle" where
  "handle p = empty_frame\<lparr>pageNum := p\<rparr>"

text \<open>The same environment, except that call number \<open>n\<close> of \<^verbatim>\<open>fopen\<close> (counted from 0) fails.\<close>

definition failing_pool :: "nat \<Rightarrow> BM_BufferPool" where
  "failing_pool n = fresh_pool\<lparr>fopen_ok := (\<lambda>k. k \<noteq> n)\<rparr>"



text \<open>
  Three runs under LRU in which hits advance the clock. The first takes it past the
  threshold of line 395 and ends with two unpinned frames after a normalisation; the second
  takes it past the threshold with every frame pinned; the third pins and unpins one page
  until the 32-bit clock has been incremented \<open>2\<^sup>3\<^sup>1\<close> times.
\<close>

definition tie_ops :: "operation list" where
  "tie_ops =
     [InitBufferPool ''pages.bin'' 2 RS_LRU, PinPage (handle 0) 1, UnpinPage (handle 1),
      PinPage (handle 0) 2, UnpinPage (handle 2)] @
     concat (replicate 32000 [PinPage (handle 0) 1, UnpinPage (handle 1)]) @
     [PinPage (handle 0) 3, UnpinPage (handle 3)]"

definition full_ops :: "operation list" where
  "full_ops =
     [InitBufferPool ''pages.bin'' 1 RS_LRU, PinPage (handle 0) 0] @
     replicate 32001 (PinPage (handle 0) 0)"

definition overflow_ops :: "operation list" where
  "overflow_ops =
     [InitBufferPool ''pages.bin'' 1 RS_LRU, PinPage (handle 0) 0, UnpinPage (handle 0)] @
     concat (replicate 2147483647 [PinPage (handle 0) 0, UnpinPage (handle 0)])"

subsection \<open>What a flush is to do\<close>


definition cleanFrames :: "nat list \<Rightarrow> BM_PageHandle list \<Rightarrow> BM_PageHandle list" where
  "cleanFrames B fs = map (\<lambda>i. if i \<in> set B then (fs ! i)\<lparr>dirty := False\<rparr> else fs ! i) [0..<length fs]"


section \<open>The page scan\<close>

lemma findPage_Some:
  "findPage fs p = Some i \<Longrightarrow> i < length fs \<and> pageNum (fs ! i) = p \<and> (\<forall>j<i. pageNum (fs ! j) \<noteq> p)"
proof (induction fs arbitrary: i)
  case Nil
  then show ?case by simp
next
  case (Cons f fs)
  show ?case
  proof (cases "pageNum f = p")
    case True
    with Cons.prems show ?thesis by simp
  next
    case False
    with Cons.prems obtain k where k: "findPage fs p = Some k" "i = Suc k"
      by auto
    from Cons.IH [OF k(1)] False k(2) show ?thesis
      by (auto simp: nth_Cons split: nat.splits)
  qed
qed

lemma findPage_None: "findPage fs p = None \<longleftrightarrow> (\<forall>f \<in> set fs. pageNum f \<noteq> p)"
  by (induction fs) auto


section \<open>The victim scan\<close>

lemma victimScan_skip:
  "\<forall>f \<in> set fs. fixCounts f = 0 \<longrightarrow> (\<exists>b. strategyAttribute f = Some b \<and> sint m < sint b) \<Longrightarrow>
   victimScan fs c m v = v"
  by (induction fs arbitrary: c) auto

lemma victimScan_unset:
  "i < length fs \<Longrightarrow> fixCounts (fs ! i) = 0 \<Longrightarrow> strategyAttribute (fs ! i) = None \<Longrightarrow>
   \<forall>j<i. \<not> (fixCounts (fs ! j) = 0 \<and> strategyAttribute (fs ! j) = None) \<Longrightarrow>
   victimScan fs c m v = int (c + i)"
proof (induction fs arbitrary: c m v i)
  case Nil
  then show ?case by simp
next
  case (Cons f fs)
  show ?case
  proof (cases i)
    case 0
    with Cons.prems show ?thesis by simp
  next
    case (Suc k)
    have hd: "\<not> (fixCounts f = 0 \<and> strategyAttribute f = None)"
      using Cons.prems(4) Suc by auto
    have rec: "victimScan fs (Suc c) m' v' = int (Suc c + k)" for m' v'
      using Cons.prems Suc by (intro Cons.IH) auto
    show ?thesis using hd rec Suc by (auto split: option.splits)
  qed
qed

lemma victimScan_min:
  "\<forall>f \<in> set fs. fixCounts f = 0 \<longrightarrow> strategyAttribute f \<noteq> None \<Longrightarrow>
   i < length fs \<Longrightarrow> fixCounts (fs ! i) = 0 \<Longrightarrow> strategyAttribute (fs ! i) = Some a \<Longrightarrow>
   sint a \<le> sint m \<Longrightarrow>
   \<forall>j<length fs. \<forall>b. fixCounts (fs ! j) = 0 \<and> strategyAttribute (fs ! j) = Some b \<longrightarrow>
       sint a \<le> sint b \<and> (b = a \<longrightarrow> j \<le> i) \<Longrightarrow>
   victimScan fs c m v = int (c + i)"
proof (induction fs arbitrary: c m v i)
  case Nil
  then show ?case by simp
next
  case (Cons f fs)
  note min = Cons.prems(6)
  show ?case
  proof (cases i)
    case 0
    have later: "\<forall>g \<in> set fs. fixCounts g = 0 \<longrightarrow> (\<exists>b. strategyAttribute g = Some b \<and> sint a < sint b)"
    proof (intro ballI impI)
      fix g assume g: "g \<in> set fs" "fixCounts g = 0"
      then obtain k where k: "k < length fs" "fs ! k = g" by (auto simp: in_set_conv_nth)
      from Cons.prems(1) g obtain b where b: "strategyAttribute g = Some b" by auto
      from min [rule_format, of "Suc k" b] k g b 0 have "sint a \<le> sint b \<and> b \<noteq> a" by auto
      moreover from this have "sint b \<noteq> sint a"
        using signed_word_eqI [of b a, where ?'a = int] by auto
      ultimately have "sint a < sint b" by simp
      with b show "\<exists>b. strategyAttribute g = Some b \<and> sint a < sint b" by auto
    qed
    from Cons.prems 0 have "fixCounts f = 0" "strategyAttribute f = Some a" by auto
    then show ?thesis using Cons.prems(5) 0 victimScan_skip [OF later] by simp
  next
    case (Suc k)
    have rec: "sint a \<le> sint m' \<Longrightarrow> victimScan fs (Suc c) m' v' = int (Suc c + k)" for m' v'
    proof (rule Cons.IH)
      show "\<forall>f\<in>set fs. fixCounts f = 0 \<longrightarrow> strategyAttribute f \<noteq> None"
        using Cons.prems(1) by simp
      show "k < length fs" "fixCounts (fs ! k) = 0" "strategyAttribute (fs ! k) = Some a"
        using Cons.prems Suc by auto
      show "\<forall>j<length fs. \<forall>b. fixCounts (fs ! j) = 0 \<and> strategyAttribute (fs ! j) = Some b \<longrightarrow>
              sint a \<le> sint b \<and> (b = a \<longrightarrow> j \<le> k)"
      proof (intro allI impI)
        fix j b assume "j < length fs" "fixCounts (fs ! j) = 0 \<and> strategyAttribute (fs ! j) = Some b"
        with min [rule_format, of "Suc j" b] Suc show "sint a \<le> sint b \<and> (b = a \<longrightarrow> j \<le> k)" by auto
      qed
    qed
    show ?thesis
    proof (cases "fixCounts f = 0")
      case False
      then show ?thesis using rec [OF Cons.prems(5)] Suc by simp
    next
      case True
      with Cons.prems(1) obtain b where b: "strategyAttribute f = Some b" by auto
      from min [rule_format, of 0 b] True b have "sint a \<le> sint b" by simp
      then show ?thesis using True b rec Cons.prems(5) Suc by simp
    qed
  qed
qed

lemma victimScan_range:
  "victimScan fs c m v = v \<or>
   (\<exists>k<length fs. victimScan fs c m v = int (c + k) \<and> fixCounts (fs ! k) = 0)"
proof (induction fs arbitrary: c m v)
  case Nil
  then show ?case by simp
next
  case (Cons f fs)
  have shift: "(\<exists>k<length fs. r = int (Suc c + k) \<and> fixCounts (fs ! k) = 0) \<Longrightarrow>
     (\<exists>k<length (f # fs). r = int (c + k) \<and> fixCounts ((f # fs) ! k) = 0)" for r
    by (metis Suc_less_eq add_Suc_shift length_Cons nth_Cons_Suc)
  show ?case
  proof (cases "fixCounts f = 0")
    case False
    then show ?thesis using Cons.IH [of "Suc c" m v] shift by auto
  next
    case True
    show ?thesis
    proof (cases "strategyAttribute f")
      case None
      with True have "victimScan (f # fs) c m v = int (c + 0) \<and> fixCounts ((f # fs) ! 0) = 0" by simp
      then show ?thesis by blast
    next
      case (Some b)
      show ?thesis
      proof (cases "sint b \<le> sint m")
        case le: True
        from Cons.IH [of "Suc c" b "int c"] show ?thesis
        proof
          assume "victimScan fs (Suc c) b (int c) = int c"
          with True Some le have "victimScan (f # fs) c m v = int (c + 0) \<and> fixCounts ((f # fs) ! 0) = 0"
            by simp
          then show ?thesis by blast
        next
          assume "\<exists>k<length fs. victimScan fs (Suc c) b (int c) = int (Suc c + k) \<and> fixCounts (fs ! k) = 0"
          from shift [OF this] True Some le show ?thesis by simp
        qed
      next
        case False
        then show ?thesis using True Some Cons.IH [of "Suc c" m v] shift by auto
      qed
    qed
  qed
qed

lemma victimScan_finds:
  "\<exists>f \<in> set fs. fixCounts f = 0 \<Longrightarrow>
   \<forall>f \<in> set fs. \<forall>a. strategyAttribute f = Some a \<longrightarrow> sint a \<le> sint m \<Longrightarrow>
   \<exists>k<length fs. victimScan fs c m v = int (c + k) \<and> fixCounts (fs ! k) = 0"
proof (induction fs arbitrary: c v)
  case Nil
  then show ?case by simp
next
  case (Cons f fs)
  have shift: "(\<exists>k<length fs. r = int (Suc c + k) \<and> fixCounts (fs ! k) = 0) \<Longrightarrow>
     (\<exists>k<length (f # fs). r = int (c + k) \<and> fixCounts ((f # fs) ! k) = 0)" for r
    by (metis Suc_less_eq add_Suc_shift length_Cons nth_Cons_Suc)
  have here: "victimScan (f # fs) c m v = int c \<Longrightarrow> fixCounts f = 0 \<Longrightarrow> ?case"
    by (rule exI [of _ 0]) simp
  show ?case
  proof (cases "fixCounts f = 0")
    case False
    with Cons.prems have "\<exists>f \<in> set fs. fixCounts f = 0" by auto
    from Cons.IH [OF this, of "Suc c" v] Cons.prems(2) False shift show ?thesis by auto
  next
    case True
    show ?thesis
    proof (cases "strategyAttribute f")
      case None
      with True here show ?thesis by simp
    next
      case (Some b)
      with Cons.prems(2) have le: "sint b \<le> sint m" by simp
      from victimScan_range [of fs "Suc c" b "int c"] show ?thesis
      proof
        assume "victimScan fs (Suc c) b (int c) = int c"
        with True Some le here show ?thesis by simp
      next
        assume "\<exists>k<length fs. victimScan fs (Suc c) b (int c) = int (Suc c + k) \<and> fixCounts (fs ! k) = 0"
        from shift [OF this] True Some le show ?thesis by simp
      qed
    qed
  qed
qed

section \<open>The invariants are kept\<close>

lemma nth_update_if: "k < length fs \<Longrightarrow> fs[i := f] ! k = (if k = i then f else fs ! k)"
  by simp

lemma inv_first_same_pages:
  assumes "inv_first fs" "length fs' = length fs"
    and "\<forall>i<length fs. pageNum (fs' ! i) = pageNum (fs ! i) \<and> (dirty (fs' ! i) \<longrightarrow> dirty (fs ! i))"
  shows "inv_first fs'"
  using assms unfolding inv_first_def by (metis order_less_trans)

lemma inv_first_update:
  assumes "inv_first fs" "pageNum f = pageNum (fs ! i)" "dirty f \<longrightarrow> dirty (fs ! i)"
  shows "inv_first (fs[i := f])"
  using assms(1)
proof (rule inv_first_same_pages)
  show "length (fs[i := f]) = length fs" by simp
  show "\<forall>k<length fs. pageNum (fs[i := f] ! k) = pageNum (fs ! k) \<and>
          (dirty (fs[i := f] ! k) \<longrightarrow> dirty (fs ! k))"
    using assms(2,3) by (auto simp: nth_update_if)
qed

lemma inv_first_markDirty:
  assumes "inv_first fs" "findPage fs p = Some i"
  shows "inv_first (fs[i := (fs ! i)\<lparr>dirty := True\<rparr>])"
proof -
  from findPage_Some [OF assms(2)]
  have i: "i < length fs" "pageNum (fs ! i) = p" "\<forall>j<i. pageNum (fs ! j) \<noteq> p" by auto
  show ?thesis
    unfolding inv_first_def
  proof (intro allI impI)
    fix k j
    assume k: "k < length (fs[i := (fs ! i)\<lparr>dirty := True\<rparr>])"
      and h: "pageNum (fs[i := (fs ! i)\<lparr>dirty := True\<rparr>] ! k) \<noteq> NO_PAGE \<or>
              dirty (fs[i := (fs ! i)\<lparr>dirty := True\<rparr>] ! k)"
      and j: "j < k"
    show "pageNum (fs[i := (fs ! i)\<lparr>dirty := True\<rparr>] ! j) \<noteq>
          pageNum (fs[i := (fs ! i)\<lparr>dirty := True\<rparr>] ! k)"
    proof (cases "k = i")
      case True
      with i j k show ?thesis by (simp add: nth_update_if)
    next
      case False
      with h k have "pageNum (fs ! k) \<noteq> NO_PAGE \<or> dirty (fs ! k)" by simp
      with assms(1) k j have "pageNum (fs ! j) \<noteq> pageNum (fs ! k)"
        unfolding inv_first_def by simp
      with False j k show ?thesis by (auto simp: nth_update_if)
    qed
  qed
qed

lemma inv_first_load:
  assumes "inv_first fs" "findPage fs pNum = None" "pageNum f = pNum" "\<not> dirty f"
  shows "inv_first (fs[i := f])"
  unfolding inv_first_def
proof (intro allI impI)
  fix k j
  assume k: "k < length (fs[i := f])"
    and h: "pageNum (fs[i := f] ! k) \<noteq> NO_PAGE \<or> dirty (fs[i := f] ! k)"
    and j: "j < k"
  from assms(2) have fresh: "\<And>n. n < length fs \<Longrightarrow> pageNum (fs ! n) \<noteq> pNum"
    by (simp add: findPage_None)
  show "pageNum (fs[i := f] ! j) \<noteq> pageNum (fs[i := f] ! k)"
  proof (cases "k = i")
    case True
    with k j assms(3) fresh [of j] show ?thesis by (simp add: nth_update_if)
  next
    case False
    with h k have "pageNum (fs ! k) \<noteq> NO_PAGE \<or> dirty (fs ! k)" by simp
    with assms(1) k j have "pageNum (fs ! j) \<noteq> pageNum (fs ! k)"
      unfolding inv_first_def by simp
    with False j k assms(3) fresh [of k] show ?thesis by (cases "j = i") (auto simp: nth_update_if)
  qed
qed

lemma inv_pinned_update:
  assumes "inv_pinned fs" "fixCounts f \<noteq> 0 \<longrightarrow> pageNum f \<noteq> NO_PAGE"
  shows "inv_pinned (fs[i := f])"
  using assms set_update_subset_insert [of fs i f] unfolding inv_pinned_def by auto

lemma inv_pinned_nth: "inv_pinned fs \<Longrightarrow> i < length fs \<Longrightarrow> fixCounts (fs ! i) \<noteq> 0 \<Longrightarrow> pageNum (fs ! i) \<noteq> NO_PAGE"
  unfolding inv_pinned_def by simp

lemma nonneg_not_NO_PAGE: "0 \<le> sint p \<Longrightarrow> p \<noteq> NO_PAGE"
  by (auto simp: NO_PAGE_def)

lemma findPage_cong: "map pageNum fs' = map pageNum fs \<Longrightarrow> findPage fs' p = findPage fs p"
proof (induction fs arbitrary: fs')
  case Nil
  then show ?case by simp
next
  case (Cons f fs)
  from Cons.prems obtain g gs where g: "fs' = g # gs" "pageNum g = pageNum f"
    "map pageNum gs = map pageNum fs" by (cases fs') auto
  from Cons.IH [OF g(3)] g(1,2) show ?case by simp
qed

lemma map_pageNum_update:
  "pageNum f = pageNum (fs ! i) \<Longrightarrow> map pageNum (fs[i := f]) = map pageNum fs"
  by (rule nth_equalityI) (auto simp: nth_update_if)

lemma pageNum_resetAttribute [simp]: "pageNum (resetAttribute f) = pageNum f"
  and dirty_resetAttribute [simp]: "dirty (resetAttribute f) = dirty f"
  and fixCounts_resetAttribute [simp]: "fixCounts (resetAttribute f) = fixCounts f"
  and data_resetAttribute [simp]: "data (resetAttribute f) = data f"
  by (simp_all add: resetAttribute_def split: option.splits)

lemma pool_inv_cong: "frames s' = frames s \<Longrightarrow> pool_inv s' = pool_inv s"
  by (simp add: pool_inv_def)

lemma pool_inv_updateI:
  assumes "pool_inv s" "frames s' = (frames s)[i := f]"
    and "pageNum f = pageNum (frames s ! i)" "dirty f \<longrightarrow> dirty (frames s ! i)"
    and "fixCounts f \<noteq> 0 \<longrightarrow> pageNum f \<noteq> NO_PAGE"
  shows "pool_inv s'"
proof -
  have "inv_first (frames s')"
    using assms by (simp add: pool_inv_def inv_first_update)
  moreover have "inv_pinned (frames s')"
    using assms by (simp add: pool_inv_def inv_pinned_update)
  ultimately show ?thesis by (simp add: pool_inv_def)
qed

lemma pool_inv_loadI:
  assumes "pool_inv s" "frames s' = (frames s)[i := f]"
    and "findPage (frames s) (pageNum f) = None" "\<not> dirty f" "pageNum f \<noteq> NO_PAGE"
  shows "pool_inv s'"
proof -
  have "inv_first (frames s')"
    using assms by (simp add: pool_inv_def inv_first_load)
  moreover have "inv_pinned (frames s')"
    using assms by (simp add: pool_inv_def inv_pinned_update)
  ultimately show ?thesis by (simp add: pool_inv_def)
qed

subsection \<open>normalizeTimer\<close>

lemma frames_normalizeTimer:
  "frames (normalizeTimer s) =
     (if 32000 < sint (buffertimer s) then map resetAttribute (frames s) else frames s)"
  by (simp add: normalizeTimer_def frames_def split: option.splits)

lemma map_pageNum_normalizeTimer [simp]:
  "map pageNum (frames (normalizeTimer s)) = map pageNum (frames s)"
  by (simp add: frames_normalizeTimer)

lemma length_frames_normalizeTimer [simp]: "length (frames (normalizeTimer s)) = length (frames s)"
  by (simp add: frames_normalizeTimer)

lemma pool_inv_normalizeTimer: "pool_inv s \<Longrightarrow> pool_inv (normalizeTimer s)"
proof (cases "32000 < sint (buffertimer s)")
  case False
  then show "pool_inv s \<Longrightarrow> ?thesis" by (simp add: normalizeTimer_def)
next
  case True
  assume inv: "pool_inv s"
  have fr: "frames (normalizeTimer s) = map resetAttribute (frames s)"
    using True by (simp add: frames_normalizeTimer)
  have "inv_first (frames s)" "inv_pinned (frames s)"
    using inv by (simp_all add: pool_inv_def)
  have "inv_first (map resetAttribute (frames s))"
    using \<open>inv_first (frames s)\<close> by (rule inv_first_same_pages) simp_all
  moreover have "inv_pinned (map resetAttribute (frames s))"
    using \<open>inv_pinned (frames s)\<close> by (simp add: inv_pinned_def)
  ultimately show ?thesis by (simp add: pool_inv_def fr)
qed

subsection \<open>forcePage\<close>

lemma forcePage_cases:
  obtains (same) "frames (snd (forcePage s page)) = frames s" "fst (forcePage s page) \<noteq> RC_OK"
  | (flushed) i where "findPage (frames s) (pageNum page) = Some i"
      "frames (snd (forcePage s page)) = (frames s)[i := (frames s ! i)\<lparr>dirty := False\<rparr>]"
      "fst (forcePage s page) = RC_OK"
proof (cases "mgmtData s")
  case None
  then show ?thesis by (intro same) (simp_all add: forcePage_def frames_def)
next
  case (Some fs)
  show ?thesis
  proof (cases "findPage fs (pageNum page)")
    case None
    with Some show ?thesis by (intro same) (simp_all add: forcePage_def frames_def)
  next
    case found: (Some i)
    show ?thesis
    proof (cases "fopen_ok s (fopens s)")
      case False
      with Some found show ?thesis by (intro same) (simp_all add: forcePage_def frames_def)
    next
      case True
      with Some found show ?thesis by (intro flushed [of i]) (simp_all add: forcePage_def frames_def)
    qed
  qed
qed

lemma buffertimer_forcePage [simp]: "buffertimer (snd (forcePage s page)) = buffertimer s"
  by (simp add: forcePage_def split: option.splits)

lemma map_pageNum_forcePage [simp]:
  "map pageNum (frames (snd (forcePage s page))) = map pageNum (frames s)"
  by (cases s page rule: forcePage_cases) (simp_all add: map_pageNum_update)

lemma length_frames_forcePage [simp]:
  "length (frames (snd (forcePage s page))) = length (frames s)"
  by (cases s page rule: forcePage_cases) simp_all

lemma pool_inv_forcePage: "pool_inv s \<Longrightarrow> pool_inv (snd (forcePage s page))"
proof (cases s page rule: forcePage_cases)
  case same
  then show "pool_inv s \<Longrightarrow> ?thesis"
    using pool_inv_cong [of "snd (forcePage s page)" s] by simp
next
  case (flushed i)
  assume inv: "pool_inv s"
  from findPage_Some [OF flushed(1)] have i: "i < length (frames s)" by simp
  from inv have p: "inv_pinned (frames s)"
    by (simp add: pool_inv_def)
  show ?thesis
    using inv flushed(2)
  proof (rule pool_inv_updateI)
    show "fixCounts ((frames s ! i)\<lparr>dirty := False\<rparr>) \<noteq> 0 \<longrightarrow>
            pageNum ((frames s ! i)\<lparr>dirty := False\<rparr>) \<noteq> NO_PAGE"
      using inv_pinned_nth [OF p i] by simp
  qed simp_all
qed

lemma mgmtData_forcePage [simp]:
  "mgmtData (snd (forcePage s page)) = None \<longleftrightarrow> mgmtData s = None"
  by (simp add: forcePage_def split: option.splits)

subsection \<open>updateBfrAtrbt\<close>

lemma frames_mgmtData [simp]: "frames (s\<lparr>mgmtData := Some fs\<rparr>) = fs"
  by (simp add: frames_def)

lemma frames_other_update [simp]:
  "frames (pageFile_update a1 s) = frames s"
  "frames (strategy_update a2 s) = frames s"
  "frames (numberReadIO_update a3 s) = frames s"
  "frames (numberWriteIO_update a4 s) = frames s"
  "frames (buffertimer_update a5 s) = frames s"
  "frames (fopen_ok_update a6 s) = frames s"
  "frames (fopens_update a7 s) = frames s"
  "frames (calloc_ok_update a8 s) = frames s"
  "frames (callocs_update a9 s) = frames s"
  "frames (fread_in_update a10 s) = frames s"
  "frames (written_update a11 s) = frames s"
  by (simp_all add: frames_def)

lemma frames_put_frame [simp]: "frames (put_frame s i f) = (frames s)[i := f]"
  by (simp add: put_frame_def frames_def)

lemma buffertimer_put_frame [simp]: "buffertimer (put_frame s i f) = buffertimer s"
  by (simp add: put_frame_def)

lemma updateBfrAtrbt_cases:
  obtains (failed) "frames (snd (updateBfrAtrbt s i)) = frames s"
      "buffertimer (snd (updateBfrAtrbt s i)) = buffertimer s"
      "strategyAttribute (frames s ! i) = None" "\<not> calloc_ok s (callocs s)"
  | (stamped)
      "frames (snd (updateBfrAtrbt s i)) =
         (frames s)[i := (frames s ! i)\<lparr>strategyAttribute := Some (buffertimer s)\<rparr>]"
      "buffertimer (snd (updateBfrAtrbt s i)) = buffertimer s + 1"
      "strategyAttribute (frames s ! i) \<noteq> None \<or> calloc_ok s (callocs s)"
proof (cases "strategyAttribute (frames s ! i) = None \<and> \<not> calloc_ok s (callocs s)")
  case True
  then show ?thesis by (intro failed) (simp_all add: updateBfrAtrbt_def frames_def)
next
  case False
  then show ?thesis by (intro stamped) (auto simp: updateBfrAtrbt_def)
qed

lemma map_pageNum_updateBfrAtrbt [simp]:
  "map pageNum (frames (snd (updateBfrAtrbt s i))) = map pageNum (frames s)"
  by (cases rule: updateBfrAtrbt_cases [of s i]) (simp_all add: map_pageNum_update)

lemma length_frames_updateBfrAtrbt [simp]:
  "length (frames (snd (updateBfrAtrbt s i))) = length (frames s)"
  by (cases rule: updateBfrAtrbt_cases [of s i]) simp_all

lemma pool_inv_updateBfrAtrbt:
  assumes inv: "pool_inv s" and i: "i < length (frames s)"
  shows "pool_inv (snd (updateBfrAtrbt s i))"
proof (cases rule: updateBfrAtrbt_cases [of s i])
  case failed
  then show ?thesis using inv pool_inv_cong [of "snd (updateBfrAtrbt s i)" s] by simp
next
  case stamped
  from inv have p: "inv_pinned (frames s)" by (simp add: pool_inv_def)
  show ?thesis
    using inv stamped(1)
  proof (rule pool_inv_updateI)
    show "fixCounts ((frames s ! i)\<lparr>strategyAttribute := Some (buffertimer s)\<rparr>) \<noteq> 0 \<longrightarrow>
            pageNum ((frames s ! i)\<lparr>strategyAttribute := Some (buffertimer s)\<rparr>) \<noteq> NO_PAGE"
      using inv_pinned_nth [OF p i] by simp
  qed (simp_all add: stamped(2))
qed

subsection \<open>loadPage\<close>

lemma put_frame_other [simp]:
  "pageFile (put_frame s i f) = pageFile s"
  "strategy (put_frame s i f) = strategy s"
  "numberReadIO (put_frame s i f) = numberReadIO s"
  "numberWriteIO (put_frame s i f) = numberWriteIO s"
  "fopen_ok (put_frame s i f) = fopen_ok s"
  "fopens (put_frame s i f) = fopens s"
  "calloc_ok (put_frame s i f) = calloc_ok s"
  "callocs (put_frame s i f) = callocs s"
  "fread_in (put_frame s i f) = fread_in s"
  "written (put_frame s i f) = written s"
  "mgmtData (put_frame s i f) = Some ((frames s)[i := f])"
  by (simp_all add: put_frame_def)

lemma loadPage_no_memory:
  assumes "data (frames s ! i) = None" "\<not> calloc_ok s (callocs s)"
  shows "loadPage s page i pNum = (RC_MEMORY_ALLOCATION_ERROR, s\<lparr>callocs := Suc (callocs s)\<rparr>, page)"
  using assms by (simp add: loadPage_def)

lemma loadPage_no_file:
  assumes "data (frames s ! i) \<noteq> None \<or> calloc_ok s (callocs s)" "\<not> fopen_ok s (fopens s)"
  shows "fst (loadPage s page i pNum) = RC_FILE_NOT_FOUND"
    and "snd (snd (loadPage s page i pNum)) = page"
    and "buffertimer (fst (snd (loadPage s page i pNum))) = buffertimer s"
    and "frames (fst (snd (loadPage s page i pNum))) =
          (if data (frames s ! i) = None then (frames s)[i := (frames s ! i)\<lparr>data := Some zero_page\<rparr>]
           else frames s)"
  using assms by (auto simp: loadPage_def Let_def)

lemma loadPage_ok:
  assumes "data (frames s ! i) \<noteq> None \<or> calloc_ok s (callocs s)" "fopen_ok s (fopens s)"
      "i < length (frames s)"
  shows "loadPage s page i pNum =
            (RC_OK, snd (updateBfrAtrbt (loadState s i pNum) i),
             frames (snd (updateBfrAtrbt (loadState s i pNum) i)) ! i)"
  using assms by (auto simp: loadPage_def Let_def loadedFrame_def loadState_def put_frame_def)

lemma frames_loadState [simp]: "frames (loadState s i pNum) = (frames s)[i := loadedFrame s i pNum]"
  by (simp add: loadState_def)

lemma buffertimer_loadState [simp]: "buffertimer (loadState s i pNum) = buffertimer s"
  by (simp add: loadState_def)

lemma pool_inv_loadState:
  assumes inv: "pool_inv s" and i: "i < length (frames s)"
    and fresh: "findPage (frames s) pNum = None" and pNum: "0 \<le> sint pNum"
  shows "pool_inv (loadState s i pNum)"
  using inv
proof (rule pool_inv_loadI)
  show "pageNum (loadedFrame s i pNum) \<noteq> NO_PAGE"
    using nonneg_not_NO_PAGE [OF pNum] by (simp add: loadedFrame_def)
qed (simp_all add: loadedFrame_def fresh)

lemma pool_inv_loadPage:
  assumes inv: "pool_inv s" and i: "i < length (frames s)"
    and fresh: "findPage (frames s) pNum = None" and pNum: "0 \<le> sint pNum"
  shows "pool_inv (fst (snd (loadPage s page i pNum)))"
proof (cases "data (frames s ! i) = None \<and> \<not> calloc_ok s (callocs s)")
  case True
  then show ?thesis
    using inv pool_inv_cong [of "s\<lparr>callocs := Suc (callocs s)\<rparr>" s]
    by (simp add: loadPage_no_memory)
next
  case mem: False
  show ?thesis
  proof (cases "fopen_ok s (fopens s)")
    case True
    have "pool_inv (snd (updateBfrAtrbt (loadState s i pNum) i))"
      using pool_inv_loadState [OF assms] i by (intro pool_inv_updateBfrAtrbt) simp_all
    then show ?thesis using mem True i by (simp add: loadPage_ok)
  next
    case False
    from mem have m: "data (frames s ! i) \<noteq> None \<or> calloc_ok s (callocs s)" by auto
    note lp = loadPage_no_file [OF m False, of page pNum]
    show ?thesis
    proof (cases "data (frames s ! i) = None")
      case True
      from inv have p: "inv_pinned (frames s)"
        by (simp add: pool_inv_def)
      show ?thesis
        using inv
      proof (rule pool_inv_updateI)
        show "frames (fst (snd (loadPage s page i pNum))) =
                (frames s)[i := (frames s ! i)\<lparr>data := Some zero_page\<rparr>]"
          using lp(4) True by simp
        show "fixCounts ((frames s ! i)\<lparr>data := Some zero_page\<rparr>) \<noteq> 0 \<longrightarrow>
                pageNum ((frames s ! i)\<lparr>data := Some zero_page\<rparr>) \<noteq> NO_PAGE"
          using inv_pinned_nth [OF p i] by simp
      qed (simp_all add: lp(3))
    next
      case False
      with lp(4) have "frames (fst (snd (loadPage s page i pNum))) = frames s" by simp
      from pool_inv_cong [OF this] inv show ?thesis by simp
    qed
  qed
qed

subsection \<open>pinPage\<close>

lemma frames_Some: "mgmtData s = Some fs \<Longrightarrow> frames s = fs"
  by (simp add: frames_def)

lemma victim_valid:
  "fst (strategyForFIFOandLRU s) = - 1 \<or>
   (\<exists>k<length (frames s). fst (strategyForFIFOandLRU s) = int k \<and> fixCounts (frames s ! k) = 0)"
  using victimScan_range [of "frames s" 0 "buffertimer s" "- 1"]
  by (simp add: strategyForFIFOandLRU_def)

lemma snd_strategyForFIFOandLRU [simp]: "snd (strategyForFIFOandLRU s) = normalizeTimer s"
  by (simp add: strategyForFIFOandLRU_def)

lemma pinPage_hit:
  assumes "mgmtData s = Some fs" "0 \<le> sint pNum" "findPage fs pNum = Some c"
  shows "pinPage s page pNum =
    (let s1 = (if strategy s = RS_LRU \<or> strategy s = RS_LRU_K
                            then snd (updateBfrAtrbt s c) else s);
         s2 = put_frame s1 c ((frames s1 ! c)\<lparr>fixCounts := fixCounts (frames s1 ! c) + 1\<rparr>)
     in (RC_OK, s2, frames s2 ! c))"
  using assms by (simp add: pinPage_def)

lemma pinPage_empty:
  assumes "mgmtData s = Some fs" "0 \<le> sint pNum" "findPage fs pNum = None" "findPage fs NO_PAGE = Some i"
  shows "pinPage s page pNum = loadPage s page i pNum"
  using assms by (simp add: pinPage_def)

lemma pinPage_victim:
  assumes "mgmtData s = Some fs" "0 \<le> sint pNum" "findPage fs pNum = None" "findPage fs NO_PAGE = None"
  shows "pinPage s page pNum =
    (let frameIndex = fst (strategyForFIFOandLRU s); s1 = normalizeTimer s in
       if frameIndex = - 1 then (RC_NO_AVAILABLE_FRAME, s1, page)
       else if dirty (frames s1 ! nat frameIndex) then
         (if fst (forcePage s1 (frames s1 ! nat frameIndex)) \<noteq> RC_OK
          then (fst (forcePage s1 (frames s1 ! nat frameIndex)),
                snd (forcePage s1 (frames s1 ! nat frameIndex)), page)
          else loadPage (snd (forcePage s1 (frames s1 ! nat frameIndex))) page (nat frameIndex) pNum)
       else loadPage s1 page (nat frameIndex) pNum)"
  using assms by (simp add: pinPage_def Let_def case_prod_beta)

lemma pool_inv_pinPage:
  assumes inv: "pool_inv s"
  shows "pool_inv (fst (snd (pinPage s page pNum)))"
proof (cases "mgmtData s")
  case None
  then show ?thesis using inv by (simp add: pinPage_def)
next
  case (Some fs)
  note fs = frames_Some [OF Some]
  show ?thesis
  proof (cases "sint pNum < 0")
    case True
    then show ?thesis using inv Some by (simp add: pinPage_def)
  next
    case False
    then have pNum: "0 \<le> sint pNum" by simp
    show ?thesis
    proof (cases "findPage fs pNum")
      case hit: (Some c)
      from findPage_Some [OF hit] have c: "c < length (frames s)" "pageNum (frames s ! c) = pNum"
        by (simp_all add: fs)
      define s1 where "s1 = (if strategy s = RS_LRU \<or> strategy s = RS_LRU_K
                            then snd (updateBfrAtrbt s c) else s)"
      have inv1: "pool_inv s1"
        using inv c(1) by (simp add: s1_def pool_inv_updateBfrAtrbt)
      have c1: "c < length (frames s1)" using c(1) by (simp add: s1_def)
      have "map pageNum (frames s1) ! c = map pageNum (frames s) ! c"
        by (simp add: s1_def)
      then have pg: "pageNum (frames s1 ! c) = pNum" using c c1 by simp
      have "pool_inv (put_frame s1 c ((frames s1 ! c)\<lparr>fixCounts := fixCounts (frames s1 ! c) + 1\<rparr>))"
        using inv1
      proof (rule pool_inv_updateI [where i = c
              and f = "(frames s1 ! c)\<lparr>fixCounts := fixCounts (frames s1 ! c) + 1\<rparr>"])
        show "fixCounts ((frames s1 ! c)\<lparr>fixCounts := fixCounts (frames s1 ! c) + 1\<rparr>) \<noteq> 0 \<longrightarrow>
              pageNum ((frames s1 ! c)\<lparr>fixCounts := fixCounts (frames s1 ! c) + 1\<rparr>) \<noteq> NO_PAGE"
          using pg nonneg_not_NO_PAGE [OF pNum] by simp
      qed simp_all
      then show ?thesis
        using pinPage_hit [OF Some pNum hit, of page] by (simp add: s1_def Let_def)
    next
      case miss: None
      show ?thesis
      proof (cases "findPage fs NO_PAGE")
        case (Some i)
        from findPage_Some [OF Some] have i: "i < length (frames s)" by (simp add: fs)
        from pool_inv_loadPage [OF inv i _ pNum, of page] miss fs
        show ?thesis by (simp add: pinPage_empty [OF \<open>mgmtData s = Some fs\<close> pNum miss Some])
      next
        case None
        note pp = pinPage_victim [OF \<open>mgmtData s = Some fs\<close> pNum miss None, of page]
        define s1 where "s1 = normalizeTimer s"
        have inv1: "pool_inv s1" using inv by (simp add: s1_def pool_inv_normalizeTimer)
        have fresh1: "findPage (frames s1) pNum = None"
          using miss fs findPage_cong [of "frames s1" "frames s" pNum] by (simp add: s1_def)
        show ?thesis
        proof (cases "fst (strategyForFIFOandLRU s) = - 1")
          case True
          then show ?thesis using pp inv1 by (simp add: s1_def Let_def)
        next
          case False
          with victim_valid [of s] obtain k where k: "k < length (frames s)"
            "fst (strategyForFIFOandLRU s) = int k" by auto
          then have k1: "k < length (frames s1)" by (simp add: s1_def)
          define s2 where "s2 = snd (forcePage s1 (frames s1 ! k))"
          have inv2: "pool_inv s2" using inv1 by (simp add: s2_def pool_inv_forcePage)
          have fresh2: "findPage (frames s2) pNum = None"
            using fresh1 findPage_cong [of "frames s2" "frames s1" pNum] by (simp add: s2_def)
          have k2: "k < length (frames s2)" using k1 by (simp add: s2_def)
          note l1 = pool_inv_loadPage [OF inv1 k1 fresh1 pNum, of page]
          note l2 = pool_inv_loadPage [OF inv2 k2 fresh2 pNum, of page]
          show ?thesis
            using pp False k(2) inv2 l1 l2 by (simp add: Let_def s1_def [symmetric] s2_def [symmetric])
        qed
      qed
    qed
  qed
qed

subsection \<open>The other operations\<close>

lemma pool_inv_markDirty:
  assumes inv: "pool_inv s"
  shows "pool_inv (snd (markDirty s page))"
proof (cases "mgmtData s")
  case None
  then show ?thesis using inv by (simp add: markDirty_def)
next
  case (Some fs)
  note fs = frames_Some [OF Some]
  show ?thesis
  proof (cases "findPage fs (pageNum page)")
    case None
    then show ?thesis using inv Some by (simp add: markDirty_def)
  next
    case found: (Some i)
    from findPage_Some [OF found] have i: "i < length fs" by simp
    from inv have "inv_first fs" "inv_pinned fs"
      by (simp_all add: pool_inv_def fs)
    then have "inv_first (fs[i := (fs ! i)\<lparr>dirty := True\<rparr>])"
      "inv_pinned (fs[i := (fs ! i)\<lparr>dirty := True\<rparr>])"
      using found i inv_pinned_nth [of fs i]
      by (simp_all add: inv_first_markDirty inv_pinned_update)
    then show ?thesis using Some found by (simp add: markDirty_def pool_inv_def)
  qed
qed

lemma pool_inv_unpinPage:
  assumes inv: "pool_inv s"
  shows "pool_inv (snd (unpinPage s page))"
proof (cases "mgmtData s")
  case None
  then show ?thesis using inv by (simp add: unpinPage_def)
next
  case (Some fs)
  note fs = frames_Some [OF Some]
  show ?thesis
  proof (cases "findPage fs (pageNum page)")
    case None
    then show ?thesis using inv Some by (simp add: unpinPage_def)
  next
    case found: (Some i)
    from findPage_Some [OF found] have i: "i < length (frames s)" by (simp add: fs)
    show ?thesis
    proof (cases "0 < sint (fixCounts (fs ! i))")
      case False
      then show ?thesis using inv Some found by (simp add: unpinPage_def)
    next
      case True
      from inv have p: "inv_pinned (frames s)"
        by (simp add: pool_inv_def)
      have "pool_inv (s\<lparr>mgmtData := Some (fs[i := (fs ! i)\<lparr>fixCounts := fixCounts (fs ! i) - 1\<rparr>])\<rparr>)"
        using inv
      proof (rule pool_inv_updateI [where i = i
              and f = "(fs ! i)\<lparr>fixCounts := fixCounts (fs ! i) - 1\<rparr>"])
        show "fixCounts ((fs ! i)\<lparr>fixCounts := fixCounts (fs ! i) - 1\<rparr>) \<noteq> 0 \<longrightarrow>
              pageNum ((fs ! i)\<lparr>fixCounts := fixCounts (fs ! i) - 1\<rparr>) \<noteq> NO_PAGE"
        proof -
          from True have "fixCounts (fs ! i) \<noteq> 0" by auto
          with inv_pinned_nth [OF p i] show ?thesis by (simp add: fs)
        qed
      qed (simp_all add: fs)
      then show ?thesis using Some found True by (simp add: unpinPage_def)
    qed
  qed
qed

lemma pool_inv_clean:
  assumes inv: "pool_inv s" and i: "i < length (frames s)"
  shows "pool_inv (put_frame s i ((frames s ! i)\<lparr>dirty := False\<rparr>))"
proof -
  from inv have p: "inv_pinned (frames s)"
    by (simp add: pool_inv_def)
  show ?thesis
    using inv
  proof (rule pool_inv_updateI [where i = i and f = "(frames s ! i)\<lparr>dirty := False\<rparr>"])
    show "fixCounts ((frames s ! i)\<lparr>dirty := False\<rparr>) \<noteq> 0 \<longrightarrow>
          pageNum ((frames s ! i)\<lparr>dirty := False\<rparr>) \<noteq> NO_PAGE"
      using inv_pinned_nth [OF p i] by simp
  qed simp_all
qed

lemma flushFrames_inv:
  "pool_inv s \<Longrightarrow> \<forall>c \<in> set cs. c < length (frames s) \<Longrightarrow>
   pool_inv (snd (flushFrames cs s)) \<and> length (frames (snd (flushFrames cs s))) = length (frames s) \<and>
   (mgmtData (snd (flushFrames cs s)) = None \<longleftrightarrow> mgmtData s = None)"
proof (induction cs arbitrary: s)
  case Nil
  then show ?case by simp
next
  case (Cons c cs)
  show ?case
  proof (cases "dirty (frames s ! c) \<and> fixCounts (frames s ! c) = 0")
    case False
    then show ?thesis using Cons by auto
  next
    case True
    define s1 where "s1 = snd (forcePage s (frames s ! c))"
    have inv1: "pool_inv s1" using Cons.prems(1) by (simp add: s1_def pool_inv_forcePage)
    have len1: "length (frames s1) = length (frames s)" by (simp add: s1_def)
    have none1: "mgmtData s1 = None \<longleftrightarrow> mgmtData s = None" by (simp add: s1_def)
    show ?thesis
    proof (cases "fst (forcePage s (frames s ! c)) = RC_OK")
      case False
      then show ?thesis using True inv1 len1 none1
        by (simp add: s1_def case_prod_beta)
    next
      case ok: True
      define s2 where "s2 = put_frame s1 c ((frames s1 ! c)\<lparr>dirty := False\<rparr>)"
      have c1: "c < length (frames s1)" using Cons.prems(2) len1 by simp
      have inv2: "pool_inv s2" unfolding s2_def using inv1 c1 by (rule pool_inv_clean)
      have len2: "length (frames s2) = length (frames s)" using len1 by (simp add: s2_def)
      have none2: "mgmtData s2 = None \<longleftrightarrow> mgmtData s = None"
      proof -
        from ok have "mgmtData s \<noteq> None" by (auto simp: forcePage_def split: option.splits)
        then show ?thesis by (simp add: s2_def)
      qed
      have "\<forall>c \<in> set cs. c < length (frames s2)" using Cons.prems(2) len2 by simp
      from Cons.IH [OF inv2 this] len2 none2 True ok show ?thesis
        by (simp add: case_prod_beta s1_def [symmetric] s2_def [symmetric])
    qed
  qed
qed

lemma pool_inv_forceFlushPool: "pool_inv s \<Longrightarrow> pool_inv (snd (forceFlushPool s))"
  using flushFrames_inv [of s "[0..<length (frames s)]"]
  by (auto simp: forceFlushPool_def frames_def split: option.splits)

lemma pool_inv_no_frames: "frames s = [] \<Longrightarrow> pool_inv s"
  by (simp add: pool_inv_def inv_first_def inv_pinned_def)

lemma pool_inv_shutdownBufferPool: 
  assumes inv: "pool_inv s"
  shows "pool_inv (snd (shutdownBufferPool s))"
proof (cases "mgmtData s")
  case None
  then show ?thesis using inv by (simp add: shutdownBufferPool_def)
next
  case (Some fs)
  have "pool_inv ((snd (forceFlushPool s))\<lparr>mgmtData := None\<rparr>)"
    by (rule pool_inv_no_frames) (simp add: frames_def)
  then show ?thesis
    using Some inv pool_inv_forceFlushPool [OF inv]
    by (simp add: shutdownBufferPool_def case_prod_beta)
qed

lemma pool_inv_initBufferPool:
  assumes inv: "pool_inv s"
  shows "pool_inv (snd (initBufferPool s fileName numFrames strat))"
proof (cases "fopen_ok s (fopens s)")
  case False
  then show ?thesis
    using inv pool_inv_cong [of "s\<lparr>fopens := Suc (fopens s)\<rparr>" s] by (simp add: initBufferPool_def)
next
  case True
  have 1: "inv_first (replicate n empty_frame)" for n
    by (simp add: inv_first_def empty_frame_def)
  have 2: "inv_pinned (replicate n empty_frame)" for n
    by (simp add: inv_pinned_def empty_frame_def)
  show ?thesis
  proof (cases "calloc_ok s (callocs s)")
    case False
    with True show ?thesis
      by (simp add: initBufferPool_def Let_def pool_inv_no_frames frames_def)
  next
    case ok: True
    with True show ?thesis
      by (simp add: initBufferPool_def Let_def pool_inv_def 1 2)
  qed
qed

subsection \<open>Every reachable state\<close>

lemma pool_inv_step: "pool_inv s \<Longrightarrow> pool_inv (step s x)"
  by (cases x)
    (simp_all add: pool_inv_initBufferPool pool_inv_pinPage pool_inv_unpinPage pool_inv_markDirty
      pool_inv_forceFlushPool pool_inv_forcePage pool_inv_shutdownBufferPool)

lemma pool_inv_run: "pool_inv s \<Longrightarrow> pool_inv (run s xs)"
  by (induction xs arbitrary: s) (simp_all add: pool_inv_step)

lemma pool_inv_reachable: "mgmtData s0 = None \<Longrightarrow> pool_inv (run s0 xs)"
  by (rule pool_inv_run, rule pool_inv_no_frames) (simp add: frames_def)

lemma replicate_num: "replicate (numeral k) x = x # replicate (pred_numeral k) x"
  by (simp add: numeral_eq_Suc)

lemma list_update_num: "(x # xs)[numeral k := y] = x # xs[pred_numeral k := y]"
  by (simp add: numeral_eq_Suc)

lemmas eval_simps = replicate_num list_update_num fresh_pool_def handle_def empty_frame_def NO_PAGE_def initBufferPool_def
  pinPage_def loadPage_def updateBfrAtrbt_def frames_def put_frame_def Let_def
  strategyForFIFOandLRU_def normalizeTimer_def forcePage_def unpinPage_def markDirty_def
  forceFlushPool_def shutdownBufferPool_def resetAttribute_def

section \<open>Claim C2: a page is resident in at most one frame\<close>

lemma inv_firstD:
  "inv_first fs \<Longrightarrow> i < length fs \<Longrightarrow> pageNum (fs ! i) \<noteq> NO_PAGE \<or> dirty (fs ! i) \<Longrightarrow> j < i \<Longrightarrow>
   pageNum (fs ! j) \<noteq> pageNum (fs ! i)"
  unfolding inv_first_def by blast

text \<open>
  Claim C2 (residency uniqueness). Start from a pool that is not initialised and run any
  sequence of \<^verbatim>\<open>initBufferPool\<close>, \<^verbatim>\<open>pinPage\<close>, \<^verbatim>\<open>unpinPage\<close>, \<^verbatim>\<open>markDirty\<close>,
  \<^verbatim>\<open>forceFlushPool\<close>, \<^verbatim>\<open>forcePage\<close> and \<^verbatim>\<open>shutdownBufferPool\<close> calls, with any
  arguments and any behaviour of the environment. In the state reached, two different
  frames never hold the same page number, unless it is the sentinel \<open>NO_PAGE\<close>.
\<close>

theorem residency_unique:
  assumes "mgmtData s0 = None" and "mgmtData (run s0 xs) = Some fs"
    and "i < length fs" "j < length fs" "i \<noteq> j" "pageNum (fs ! i) \<noteq> NO_PAGE"
  shows "pageNum (fs ! i) \<noteq> pageNum (fs ! j)"
proof -
  from pool_inv_reachable [OF assms(1), of xs] assms(2) have first: "inv_first fs"
    by (simp add: pool_inv_def frames_def)
  show ?thesis
  proof (cases "j < i")
    case True
    from inv_firstD [OF first assms(3) _ True] assms(6) show ?thesis by auto
  next
    case False
    with assms(5) have lt: "i < j" by simp
    show ?thesis
    proof
      assume eq: "pageNum (fs ! i) = pageNum (fs ! j)"
      with assms(6) have "pageNum (fs ! j) \<noteq> NO_PAGE" by simp
      with inv_firstD [OF first assms(4) _ lt] have "pageNum (fs ! i) \<noteq> pageNum (fs ! j)"
        by simp
      with eq show False by simp
    qed
  qed
qed

theorem residency_unique_witness:
  "mgmtData fresh_pool = None \<and>
   mgmtData (run fresh_pool [InitBufferPool ''pages.bin'' 3 RS_FIFO, PinPage (handle 0) 4,
       PinPage (handle 0) 7, UnpinPage (handle 4), PinPage (handle 0) 4]) =
     Some [\<lparr>pageNum = 4, data = Some [], dirty = False, fixCounts = 1, strategyAttribute = Some 0\<rparr>,
           \<lparr>pageNum = 7, data = Some [], dirty = False, fixCounts = 1, strategyAttribute = Some 1\<rparr>,
           empty_frame] \<and>
   pageNum \<lparr>pageNum = 4, data = Some [], dirty = False, fixCounts = 1, strategyAttribute = Some 0\<rparr>
     \<noteq> pageNum \<lparr>pageNum = 7, data = Some [], dirty = False, fixCounts = 1, strategyAttribute = Some (1::c_int)\<rparr>"
proof -
  have 0: "mgmtData fresh_pool = None" by (simp add: fresh_pool_def)
  have 1: "mgmtData (run fresh_pool [InitBufferPool ''pages.bin'' 3 RS_FIFO, PinPage (handle 0) 4,
       PinPage (handle 0) 7, UnpinPage (handle 4), PinPage (handle 0) 4]) =
     Some [\<lparr>pageNum = 4, data = Some [], dirty = False, fixCounts = 1, strategyAttribute = Some 0\<rparr>,
           \<lparr>pageNum = 7, data = Some [], dirty = False, fixCounts = 1, strategyAttribute = Some 1\<rparr>,
           empty_frame]"
    by (simp add: eval_simps)
  from residency_unique [OF 0 1, of 0 1] 0 1 show ?thesis by (simp add: NO_PAGE_def)
qed

section \<open>Repeated hits\<close>

lemma pin_hit_LRU:
  assumes "mgmtData s = Some fs" "findPage fs p = Some i" "0 \<le> sint p" "strategy s = RS_LRU"
    "strategyAttribute (fs ! i) \<noteq> None"
  shows "step s (PinPage h p) =
    s\<lparr>buffertimer := buffertimer s + 1,
      mgmtData := Some (fs[i := (fs ! i)\<lparr>strategyAttribute := Some (buffertimer s),
                                           fixCounts := fixCounts (fs ! i) + 1\<rparr>])\<rparr>"
proof -
  from findPage_Some [OF assms(2)] have i: "i < length fs" by simp
  from assms(5) obtain a where a: "strategyAttribute (fs ! i) = Some a" by auto
  show ?thesis
    using assms(1,3,4) a i
    by (simp add: pinPage_hit [OF assms(1,3,2)] updateBfrAtrbt_def put_frame_def frames_def Let_def)
qed

lemma run_append: "run s (xs @ ys) = run (run s xs) ys"
  by (induction xs arbitrary: s) simp_all

lemma run_hits_LRU:
  "mgmtData s = Some fs \<Longrightarrow> findPage fs p = Some i \<Longrightarrow> 0 \<le> sint p \<Longrightarrow> strategy s = RS_LRU \<Longrightarrow>
   strategyAttribute (fs ! i) \<noteq> None \<Longrightarrow>
    run s (replicate (Suc n) (PinPage h p)) =
    s\<lparr>buffertimer := buffertimer s + 1 + of_nat n,
      mgmtData := Some (fs[i := (fs ! i)\<lparr>strategyAttribute := Some (buffertimer s + of_nat n),
                                           fixCounts := fixCounts (fs ! i) + 1 + of_nat n\<rparr>])\<rparr>"
proof (induction n arbitrary: s fs)
  case 0
  then show ?case using pin_hit_LRU [OF "0.prems", of h] by simp
next
  case (Suc n)
  from findPage_Some [OF Suc.prems(2)] have i: "i < length fs" by simp
  let ?fs = "fs[i := (fs ! i)\<lparr>strategyAttribute := Some (buffertimer s),
                                fixCounts := fixCounts (fs ! i) + 1\<rparr>]"
  let ?s = "s\<lparr>buffertimer := buffertimer s + 1, mgmtData := Some ?fs\<rparr>"
  have st: "step s (PinPage h p) = ?s"
    using pin_hit_LRU [OF Suc.prems, of h] .
  have "map pageNum ?fs = map pageNum fs" by (rule map_pageNum_update) simp
  from findPage_cong [OF this, of p] Suc.prems(2) have f: "findPage ?fs p = Some i" by simp
  have "run ?s (replicate (Suc n) (PinPage h p)) =
    ?s\<lparr>buffertimer := buffertimer ?s + 1 + of_nat n,
      mgmtData := Some (?fs[i := (?fs ! i)\<lparr>strategyAttribute := Some (buffertimer ?s + of_nat n),
                                           fixCounts := fixCounts (?fs ! i) + 1 + of_nat n\<rparr>])\<rparr>"
    using f i Suc.prems(3,4) by (intro Suc.IH) simp_all
  then show ?case using st i by (simp add: add.commute add.left_commute)
qed

lemma unpin_step:
  assumes "mgmtData s = Some fs" "findPage fs (pageNum h) = Some i" "0 < sint (fixCounts (fs ! i))"
  shows "step s (UnpinPage h) =
    s\<lparr>mgmtData := Some (fs[i := (fs ! i)\<lparr>fixCounts := fixCounts (fs ! i) - 1\<rparr>])\<rparr>"
  using assms by (simp add: unpinPage_def)

lemma pin_unpin_LRU:
  assumes "mgmtData s = Some fs" "findPage fs p = Some i" "0 \<le> sint p" "strategy s = RS_LRU"
    "strategyAttribute (fs ! i) \<noteq> None" "fixCounts (fs ! i) = 0" "pageNum h' = p"
  shows "run s [PinPage h p, UnpinPage h'] =
    s\<lparr>buffertimer := buffertimer s + 1,
      mgmtData := Some (fs[i := (fs ! i)\<lparr>strategyAttribute := Some (buffertimer s),
                                           fixCounts := 0\<rparr>])\<rparr>"
proof -
  from findPage_Some [OF assms(2)] have i: "i < length fs" by simp
  let ?fs = "fs[i := (fs ! i)\<lparr>strategyAttribute := Some (buffertimer s),
                                fixCounts := fixCounts (fs ! i) + 1\<rparr>]"
  let ?s = "s\<lparr>buffertimer := buffertimer s + 1, mgmtData := Some ?fs\<rparr>"
  have st: "step s (PinPage h p) = ?s"
    using pin_hit_LRU [OF assms(1-5), of h] .
  have "map pageNum ?fs = map pageNum fs" by (rule map_pageNum_update) simp
  from findPage_cong [OF this, of p] assms(2,7)
  have f: "findPage ?fs (pageNum h') = Some i" by simp
  have m: "mgmtData ?s = Some ?fs" by simp
  have pos: "0 < sint (fixCounts (?fs ! i))" using i assms(6) by simp
  show ?thesis
    using unpin_step [OF m f pos] st i assms(6) by simp
qed

lemma run_pairs_LRU:
  "mgmtData s = Some fs \<Longrightarrow> findPage fs p = Some i \<Longrightarrow> 0 \<le> sint p \<Longrightarrow> strategy s = RS_LRU \<Longrightarrow>
   strategyAttribute (fs ! i) \<noteq> None \<Longrightarrow> fixCounts (fs ! i) = 0 \<Longrightarrow> pageNum h' = p \<Longrightarrow>
    run s (concat (replicate (Suc n) [PinPage h p, UnpinPage h'])) =
    s\<lparr>buffertimer := buffertimer s + 1 + of_nat n,
      mgmtData := Some (fs[i := (fs ! i)\<lparr>strategyAttribute := Some (buffertimer s + of_nat n),
                                           fixCounts := 0\<rparr>])\<rparr>"
proof (induction n arbitrary: s fs)
  case 0
  then show ?case using pin_unpin_LRU [OF "0.prems", of h] by simp
next
  case (Suc n)
  from findPage_Some [OF Suc.prems(2)] have i: "i < length fs" by simp
  let ?fs = "fs[i := (fs ! i)\<lparr>strategyAttribute := Some (buffertimer s), fixCounts := 0\<rparr>]"
  let ?s = "s\<lparr>buffertimer := buffertimer s + 1, mgmtData := Some ?fs\<rparr>"
  have st: "run s [PinPage h p, UnpinPage h'] = ?s"
    using pin_unpin_LRU [OF Suc.prems, of h] .
  have "map pageNum ?fs = map pageNum fs" by (rule map_pageNum_update) simp
  from findPage_cong [OF this, of p] Suc.prems(2) have f: "findPage ?fs p = Some i" by simp
  have "run ?s (concat (replicate (Suc n) [PinPage h p, UnpinPage h'])) =
    ?s\<lparr>buffertimer := buffertimer ?s + 1 + of_nat n,
      mgmtData := Some (?fs[i := (?fs ! i)\<lparr>strategyAttribute := Some (buffertimer ?s + of_nat n),
                                           fixCounts := 0\<rparr>])\<rparr>"
    using f i Suc.prems(3,4,7) by (intro Suc.IH) simp_all
  moreover have "run s (concat (replicate (Suc (Suc n)) [PinPage h p, UnpinPage h'])) =
    run (run s [PinPage h p, UnpinPage h']) (concat (replicate (Suc n) [PinPage h p, UnpinPage h']))"
    by simp
  ultimately show ?case unfolding st using i by (simp add: add.commute add.left_commute)
qed

lemma tie_ops_run:
  "run fresh_pool tie_ops =
     \<lparr>pageFile = ''pages.bin'', strategy = RS_LRU,
      mgmtData = Some
        [\<lparr>pageNum = 1, data = Some [], dirty = False, fixCounts = 0, strategyAttribute = Some 0\<rparr>,
         \<lparr>pageNum = 3, data = Some [], dirty = False, fixCounts = 0, strategyAttribute = Some 0\<rparr>],
      numberReadIO = 3, numberWriteIO = 0, buffertimer = 1, fopen_ok = (\<lambda>k. True), fopens = 4,
      calloc_ok = (\<lambda>k. True), callocs = 5, fread_in = (\<lambda>k. []),
      fwrite_ok = (\<lambda>k. True), written = []\<rparr>"
proof -
  let ?A = "\<lparr>pageFile = ''pages.bin'', strategy = RS_LRU,
      mgmtData = Some
        [\<lparr>pageNum = 1, data = Some [], dirty = False, fixCounts = 0, strategyAttribute = Some 0\<rparr>,
         \<lparr>pageNum = 2, data = Some [], dirty = False, fixCounts = 0, strategyAttribute = Some 1\<rparr>],
      numberReadIO = 2, numberWriteIO = 0, buffertimer = 2, fopen_ok = (\<lambda>k. True), fopens = 3,
      calloc_ok = (\<lambda>k. True), callocs = 5, fread_in = (\<lambda>k. []),
      fwrite_ok = (\<lambda>k. True), written = []\<rparr>"
  let ?B = "\<lparr>pageFile = ''pages.bin'', strategy = RS_LRU,
      mgmtData = Some
        [\<lparr>pageNum = 1, data = Some [], dirty = False, fixCounts = 0, strategyAttribute = Some 32001\<rparr>,
         \<lparr>pageNum = 2, data = Some [], dirty = False, fixCounts = 0, strategyAttribute = Some 1\<rparr>],
      numberReadIO = 2, numberWriteIO = 0, buffertimer = 32002, fopen_ok = (\<lambda>k. True), fopens = 3,
      calloc_ok = (\<lambda>k. True), callocs = 5, fread_in = (\<lambda>k. []),
      fwrite_ok = (\<lambda>k. True), written = []\<rparr>"
  have a: "run fresh_pool [InitBufferPool ''pages.bin'' 2 RS_LRU, PinPage (handle 0) 1,
             UnpinPage (handle 1), PinPage (handle 0) 2, UnpinPage (handle 2)] = ?A"
    by (simp add: eval_simps)
  have "run ?A (concat (replicate (Suc 31999) [PinPage (handle 0) 1, UnpinPage (handle 1)])) = ?B"
    using run_pairs_LRU [of ?A _ 1 0 "handle 1" 31999 "handle 0"] by (simp add: handle_def)
  then have b: "run ?A (concat (replicate 32000 [PinPage (handle 0) 1, UnpinPage (handle 1)])) = ?B"
    by simp
  have c: "run ?B [PinPage (handle 0) 3, UnpinPage (handle 3)] =
     \<lparr>pageFile = ''pages.bin'', strategy = RS_LRU,
      mgmtData = Some
        [\<lparr>pageNum = 1, data = Some [], dirty = False, fixCounts = 0, strategyAttribute = Some 0\<rparr>,
         \<lparr>pageNum = 3, data = Some [], dirty = False, fixCounts = 0, strategyAttribute = Some 0\<rparr>],
      numberReadIO = 3, numberWriteIO = 0, buffertimer = 1, fopen_ok = (\<lambda>k. True), fopens = 4,
      calloc_ok = (\<lambda>k. True), callocs = 5, fread_in = (\<lambda>k. []),
      fwrite_ok = (\<lambda>k. True), written = []\<rparr>"
    by (simp add: eval_simps)
  show ?thesis
    unfolding tie_ops_def run_append a b c by simp
qed

section \<open>Claim C1: the victim selector\<close>

text \<open>
  Claim C1, as amended. For a pool with frames \<open>fs\<close>:
  \<^item> if frame \<open>i\<close> has fix count zero and no attribute, and no frame before it has both,
    the selector returns \<open>i\<close>, whatever the other frames hold;
  \<^item> if every frame with fix count zero has an attribute, the selector returns the frame
    \<open>i\<close> with fix count zero whose attribute \<open>a\<close> is smallest, provided \<open>a\<close> is not ahead of
    the clock (attributes and clock are compared as signed 32-bit integers); among
    several frames with that smallest attribute it returns the one with the highest index
    (the comparison at line 387 is \<^verbatim>\<open><=\<close>, so a later frame with an equal attribute
    replaces the earlier one).
\<close>

theorem victim_choice:
  assumes "mgmtData s = Some fs"
  shows "(\<forall>i<length fs.
            fixCounts (fs ! i) = 0 \<and> strategyAttribute (fs ! i) = None \<and>
            (\<forall>j<i. \<not> (fixCounts (fs ! j) = 0 \<and> strategyAttribute (fs ! j) = None)) \<longrightarrow>
            fst (strategyForFIFOandLRU s) = int i) \<and>
         ((\<forall>f \<in> set fs. fixCounts f = 0 \<longrightarrow> strategyAttribute f \<noteq> None) \<longrightarrow>
          (\<forall>i<length fs. \<forall>a.
             fixCounts (fs ! i) = 0 \<and> strategyAttribute (fs ! i) = Some a \<and> sint a \<le> sint (buffertimer s) \<and>
             (\<forall>j<length fs. \<forall>b. fixCounts (fs ! j) = 0 \<and> strategyAttribute (fs ! j) = Some b \<longrightarrow>
                sint a \<le> sint b \<and> (b = a \<longrightarrow> j \<le> i)) \<longrightarrow>
             fst (strategyForFIFOandLRU s) = int i))"
proof -
  have fs: "frames s = fs" using assms by (simp add: frames_def)
  have unset: "fst (strategyForFIFOandLRU s) = int i"
    if "i < length fs" "fixCounts (fs ! i) = 0" "strategyAttribute (fs ! i) = None"
      "\<forall>j<i. \<not> (fixCounts (fs ! j) = 0 \<and> strategyAttribute (fs ! j) = None)" for i
    using victimScan_unset [OF that, of 0 "buffertimer s" "- 1"]
    by (simp add: strategyForFIFOandLRU_def fs)
  have least: "fst (strategyForFIFOandLRU s) = int i"
    if "\<forall>f \<in> set fs. fixCounts f = 0 \<longrightarrow> strategyAttribute f \<noteq> None"
      "i < length fs" "fixCounts (fs ! i) = 0" "strategyAttribute (fs ! i) = Some a"
      "sint a \<le> sint (buffertimer s)"
      "\<forall>j<length fs. \<forall>b. fixCounts (fs ! j) = 0 \<and> strategyAttribute (fs ! j) = Some b \<longrightarrow>
                sint a \<le> sint b \<and> (b = a \<longrightarrow> j \<le> i)" for i a
    using victimScan_min [OF that, of 0 "- 1"]
    by (simp add: strategyForFIFOandLRU_def fs)
  show ?thesis
  proof (intro conjI allI impI)
    fix i
    assume "i < length fs"
      "fixCounts (fs ! i) = 0 \<and> strategyAttribute (fs ! i) = None \<and>
       (\<forall>j<i. \<not> (fixCounts (fs ! j) = 0 \<and> strategyAttribute (fs ! j) = None))"
    then show "fst (strategyForFIFOandLRU s) = int i" using unset [of i] by blast
  next
    fix i a
    assume "\<forall>f \<in> set fs. fixCounts f = 0 \<longrightarrow> strategyAttribute f \<noteq> None" "i < length fs"
      "fixCounts (fs ! i) = 0 \<and> strategyAttribute (fs ! i) = Some a \<and> sint a \<le> sint (buffertimer s) \<and>
       (\<forall>j<length fs. \<forall>b. fixCounts (fs ! j) = 0 \<and> strategyAttribute (fs ! j) = Some b \<longrightarrow>
                sint a \<le> sint b \<and> (b = a \<longrightarrow> j \<le> i))"
    then show "fst (strategyForFIFOandLRU s) = int i" using least [of i a] by blast
  qed
qed

theorem victim_choice_witness:
  "fst (strategyForFIFOandLRU
      (run fresh_pool [InitBufferPool ''pages.bin'' 3 RS_FIFO, PinPage (handle 0) 8])) = 1 \<and>
   fst (strategyForFIFOandLRU
      (run fresh_pool [InitBufferPool ''pages.bin'' 2 RS_LRU, PinPage (handle 0) 8,
         PinPage (handle 0) 9, PinPage (handle 0) 8, UnpinPage (handle 8), UnpinPage (handle 8),
         UnpinPage (handle 9)])) = 1"
proof -
  let ?s1 = "run fresh_pool [InitBufferPool ''pages.bin'' 3 RS_FIFO, PinPage (handle 0) 8]"
  let ?fs1 = "[\<lparr>pageNum = 8, data = Some [], dirty = False, fixCounts = 1, strategyAttribute = Some 0\<rparr>,
               empty_frame, empty_frame]"
  let ?s2 = "run fresh_pool [InitBufferPool ''pages.bin'' 2 RS_LRU, PinPage (handle 0) 8,
         PinPage (handle 0) 9, PinPage (handle 0) 8, UnpinPage (handle 8), UnpinPage (handle 8),
         UnpinPage (handle 9)]"
  let ?fs2 = "[\<lparr>pageNum = 8, data = Some [], dirty = False, fixCounts = 0, strategyAttribute = Some 2\<rparr>,
               \<lparr>pageNum = 9, data = Some [], dirty = False, fixCounts = 0, strategyAttribute = Some 1\<rparr>]"
  have 1: "mgmtData ?s1 = Some ?fs1"
    by (simp add: eval_simps)
  have 2: "mgmtData ?s2 = Some ?fs2" and c2: "buffertimer ?s2 = 3"
    by (simp_all add: eval_simps)
  have "fst (strategyForFIFOandLRU ?s1) = int 1"
    using victim_choice [OF 1, THEN conjunct1, rule_format, of 1]
    by (simp add: empty_frame_def)
  moreover have "fst (strategyForFIFOandLRU ?s2) = int 1"
  proof -
    have p1: "\<forall>f \<in> set ?fs2. fixCounts f = 0 \<longrightarrow> strategyAttribute f \<noteq> None" by simp
    have p2: "1 < length ?fs2" by simp
    have p3: "fixCounts (?fs2 ! 1) = 0 \<and> strategyAttribute (?fs2 ! 1) = Some 1 \<and>
        sint 1 \<le> sint (buffertimer ?s2) \<and>
        (\<forall>j<length ?fs2. \<forall>b. fixCounts (?fs2 ! j) = 0 \<and> strategyAttribute (?fs2 ! j) = Some b \<longrightarrow>
           sint 1 \<le> sint b \<and> (b = 1 \<longrightarrow> j \<le> 1))"
      unfolding c2 by (simp add: less_Suc_eq)
    from victim_choice [OF 2, THEN conjunct2, THEN mp, OF p1, THEN spec, of 1, THEN mp, OF p2,
        THEN spec, of 1, THEN mp, OF p3]
    show ?thesis .
  qed
  ultimately show ?thesis by simp
qed

text \<open>
  The claim breaks ties by the lowest index. In the state below both frames have fix count
  zero and attribute 0, and the selector returns frame 1. The state is reached under LRU
  by pinning and unpinning page 1 until the clock is past 32000, and then pinning page 3:
  the eviction of page 2 resets the clock and every attribute to zero, the load of page
  3 is stamped with that zero, and page 3 is unpinned.
\<close>

theorem victim_tie_counterexample:
  "frames (run fresh_pool tie_ops) =
     [\<lparr>pageNum = 1, data = Some [], dirty = False, fixCounts = 0, strategyAttribute = Some 0\<rparr>,
      \<lparr>pageNum = 3, data = Some [], dirty = False, fixCounts = 0, strategyAttribute = Some 0\<rparr>] \<and>
   buffertimer (run fresh_pool tie_ops) = 1 \<and>
   fst (strategyForFIFOandLRU (run fresh_pool tie_ops)) = 1"
  unfolding tie_ops_run by (simp add: strategyForFIFOandLRU_def frames_def)

section \<open>Claim C3: pinning when every frame is pinned\<close>

lemma victimScan_all_pinned: "\<forall>f \<in> set fs. fixCounts f \<noteq> 0 \<Longrightarrow> victimScan fs c m v = v"
  by (induction fs arbitrary: c) simp_all

lemma pinPage_all_pinned:
  assumes "mgmtData s = Some fs" "\<forall>f \<in> set fs. fixCounts f \<noteq> 0" "inv_pinned fs"
    "0 \<le> sint pNum" "findPage fs pNum = None"
  shows "pinPage s page pNum = (RC_NO_AVAILABLE_FRAME, normalizeTimer s, page)"
proof -
  have "\<forall>f \<in> set fs. pageNum f \<noteq> NO_PAGE"
    using assms(2,3) by (simp add: inv_pinned_def)
  then have empty: "findPage fs NO_PAGE = None" by (simp add: findPage_None)
  have "fst (strategyForFIFOandLRU s) = - 1"
    using victimScan_all_pinned [OF assms(2)] assms(1)
    by (simp add: strategyForFIFOandLRU_def frames_def)
  then show ?thesis
    by (simp add: pinPage_victim [OF assms(1,4,5) empty])
qed

lemma full_ops_run:
  "run fresh_pool full_ops =
     \<lparr>pageFile = ''pages.bin'', strategy = RS_LRU,
      mgmtData = Some
        [\<lparr>pageNum = 0, data = Some [], dirty = False, fixCounts = 32002,
          strategyAttribute = Some 32001\<rparr>],
      numberReadIO = 1, numberWriteIO = 0, buffertimer = 32002, fopen_ok = (\<lambda>k. True), fopens = 2,
      calloc_ok = (\<lambda>k. True), callocs = 3, fread_in = (\<lambda>k. []),
      fwrite_ok = (\<lambda>k. True), written = []\<rparr>"
proof -
  let ?A = "\<lparr>pageFile = ''pages.bin'', strategy = RS_LRU,
      mgmtData = Some
        [\<lparr>pageNum = 0, data = Some [], dirty = False, fixCounts = 1, strategyAttribute = Some 0\<rparr>],
      numberReadIO = 1, numberWriteIO = 0, buffertimer = 1, fopen_ok = (\<lambda>k. True), fopens = 2,
      calloc_ok = (\<lambda>k. True), callocs = 3, fread_in = (\<lambda>k. []),
      fwrite_ok = (\<lambda>k. True), written = []\<rparr>"
  have a: "run fresh_pool [InitBufferPool ''pages.bin'' 1 RS_LRU, PinPage (handle 0) 0] = ?A"
    by (simp add: eval_simps)
  have "run ?A (replicate (Suc 32000) (PinPage (handle 0) 0)) =
      ?A\<lparr>buffertimer := 32002,
         mgmtData := Some
          [\<lparr>pageNum = 0, data = Some [], dirty = False, fixCounts = 32002,
            strategyAttribute = Some 32001\<rparr>]\<rparr>"
    using run_hits_LRU [of ?A _ 0 0 32000 "handle 0"] by simp
  then have b: "run ?A (replicate 32001 (PinPage (handle 0) 0)) =
      ?A\<lparr>buffertimer := 32002,
         mgmtData := Some
          [\<lparr>pageNum = 0, data = Some [], dirty = False, fixCounts = 32002,
            strategyAttribute = Some 32001\<rparr>]\<rparr>"
    by simp
  show ?thesis
    unfolding full_ops_def run_append a b by simp
qed

text \<open>
  Claim C3, as amended. In a state reached from a pool that is not initialised, let every
  frame have a fix count above zero, and let \<open>pNum\<close> be a page number that is not negative
  and that no frame holds. Then \<^verbatim>\<open>pinPage\<close> returns \<^verbatim>\<open>RC_NO_AVAILABLE_FRAME\<close> and leaves
  the handle of the caller as it was. If the clock is at most 32000 the state is
  unchanged. If the clock is above 32000 the call sets the clock and every attribute
  that is present to zero (lines 395-403 run before the selector returns) and changes
  nothing else.
\<close>

theorem pin_all_pinned:
  assumes "mgmtData s0 = None" "s = run s0 xs" "mgmtData s = Some fs"
    and "\<forall>f \<in> set fs. 0 < sint (fixCounts f)" "0 \<le> sint pNum" "findPage fs pNum = None"
  shows "pinPage s page pNum =
    (RC_NO_AVAILABLE_FRAME,
     (if sint (buffertimer s) > 32000
      then s\<lparr>buffertimer := 0, mgmtData := Some (map resetAttribute fs)\<rparr> else s),
     page)"
proof -
  from pool_inv_reachable [OF assms(1), of xs] assms(2,3) have "inv_pinned fs"
    by (simp add: pool_inv_def frames_def)
  moreover from assms(4) have "\<forall>f \<in> set fs. fixCounts f \<noteq> 0" by auto
  ultimately have "pinPage s page pNum = (RC_NO_AVAILABLE_FRAME, normalizeTimer s, page)"
    using assms(3,5,6) by (intro pinPage_all_pinned) simp_all
  then show ?thesis using assms(3) by (simp add: normalizeTimer_def)
qed

theorem pin_all_pinned_witness:
  "mgmtData (run fresh_pool [InitBufferPool ''pages.bin'' 2 RS_FIFO, PinPage (handle 0) 0,
       PinPage (handle 0) 1]) =
     Some [\<lparr>pageNum = 0, data = Some [], dirty = False, fixCounts = 1, strategyAttribute = Some 0\<rparr>,
           \<lparr>pageNum = 1, data = Some [], dirty = False, fixCounts = 1, strategyAttribute = Some 1\<rparr>] \<and>
   pinPage (run fresh_pool [InitBufferPool ''pages.bin'' 2 RS_FIFO, PinPage (handle 0) 0,
       PinPage (handle 0) 1]) (handle 0) 2 =
     (RC_NO_AVAILABLE_FRAME,
      run fresh_pool [InitBufferPool ''pages.bin'' 2 RS_FIFO, PinPage (handle 0) 0,
       PinPage (handle 0) 1],
      handle 0)"
proof -
  let ?s = "run fresh_pool [InitBufferPool ''pages.bin'' 2 RS_FIFO, PinPage (handle 0) 0,
       PinPage (handle 0) 1]"
  let ?fs = "[\<lparr>pageNum = 0, data = Some [], dirty = False, fixCounts = 1, strategyAttribute = Some 0\<rparr>,
           \<lparr>pageNum = 1, data = Some [], dirty = False, fixCounts = 1, strategyAttribute = Some 1\<rparr>]"
  have 0: "mgmtData fresh_pool = None" by (simp add: fresh_pool_def)
  have 1: "mgmtData ?s = Some ?fs" and c: "buffertimer ?s = 2"
    by (simp_all add: eval_simps)
  have 2: "\<forall>f \<in> set ?fs. 0 < sint (fixCounts f)" by simp
  have 3: "findPage ?fs 2 = None" by simp
  from pin_all_pinned [OF 0 refl 1 2 _ 3, of "handle 0"] c 1 show ?thesis by simp
qed

text \<open>
  The claim has no state change at all. After \<^verbatim>\<open>pinPage\<close> has hit page 0 of a one-frame
  LRU pool 32001 times the frame is pinned and the clock is 32002; the failed pin of page
  1 then resets the clock and the attribute of the frame.
\<close>

theorem pin_all_pinned_counterexample:
  "frames (run fresh_pool full_ops) =
     [\<lparr>pageNum = 0, data = Some [], dirty = False, fixCounts = 32002,
       strategyAttribute = Some 32001\<rparr>] \<and>
   buffertimer (run fresh_pool full_ops) = 32002 \<and>
   fst (pinPage (run fresh_pool full_ops) (handle 1) 1) = RC_NO_AVAILABLE_FRAME \<and>
   frames (fst (snd (pinPage (run fresh_pool full_ops) (handle 1) 1))) =
     [\<lparr>pageNum = 0, data = Some [], dirty = False, fixCounts = 32002,
       strategyAttribute = Some 0\<rparr>] \<and>
   buffertimer (fst (snd (pinPage (run fresh_pool full_ops) (handle 1) 1))) = 0"
  unfolding full_ops_run by (simp add: eval_simps)

section \<open>Claim C4: a pin that fails after the victim is chosen\<close>

lemma loadPage_fail:
  assumes "i < length (frames s)" "fst (loadPage s page i pNum) \<noteq> RC_OK"
  shows "map pageNum (frames (fst (snd (loadPage s page i pNum)))) = map pageNum (frames s) \<and>
         snd (snd (loadPage s page i pNum)) = page"
proof (cases "data (frames s ! i) = None \<and> \<not> calloc_ok s (callocs s)")
  case True
  then show ?thesis by (simp add: loadPage_no_memory)
next
  case False
  then have m: "data (frames s ! i) \<noteq> None \<or> calloc_ok s (callocs s)" by auto
  show ?thesis
  proof (cases "fopen_ok s (fopens s)")
    case True
    with assms m show ?thesis by (simp add: loadPage_ok)
  next
    case False
    note lp = loadPage_no_file [OF m False, of page pNum]
    have "map pageNum ((frames s)[i := (frames s ! i)\<lparr>data := Some zero_page\<rparr>]) = map pageNum (frames s)"
      by (rule map_pageNum_update) simp
    then show ?thesis using lp(2,4) by simp
  qed
qed

lemma pinPage_fail:
  assumes init: "mgmtData s = Some fs" and fail: "fst (pinPage s page pNum) \<noteq> RC_OK"
  shows "map pageNum (frames (fst (snd (pinPage s page pNum)))) = map pageNum fs \<and>
         snd (snd (pinPage s page pNum)) = page"
proof -
  note fs = frames_Some [OF init]
  show ?thesis
  proof (cases "sint pNum < 0")
    case True
    then show ?thesis using init fs by (simp add: pinPage_def)
  next
    case False
    then have pNum: "0 \<le> sint pNum" by simp
    show ?thesis
    proof (cases "findPage fs pNum")
      case (Some c)
      then show ?thesis using fail pinPage_hit [OF init pNum Some, of page] by (simp add: Let_def)
    next
      case miss: None
      show ?thesis
      proof (cases "findPage fs NO_PAGE")
        case (Some i)
        from findPage_Some [OF Some] have i: "i < length (frames s)" by (simp add: fs)
        show ?thesis
          using loadPage_fail [OF i, of page pNum] fail fs
          by (simp add: pinPage_empty [OF init pNum miss Some])
      next
        case None
        note pp = pinPage_victim [OF init pNum miss None, of page]
        define s1 where "s1 = normalizeTimer s"
        have m1: "map pageNum (frames s1) = map pageNum fs" by (simp add: s1_def fs)
        show ?thesis
        proof (cases "fst (strategyForFIFOandLRU s) = - 1")
          case True
          then show ?thesis using pp m1 by (simp add: s1_def Let_def)
        next
          case False
          with victim_valid [of s] obtain k where k: "k < length (frames s)"
            "fst (strategyForFIFOandLRU s) = int k" by auto
          then have k1: "k < length (frames s1)" by (simp add: s1_def)
          define s2 where "s2 = snd (forcePage s1 (frames s1 ! k))"
          have m2: "map pageNum (frames s2) = map pageNum fs" using m1 by (simp add: s2_def)
          have k2: "k < length (frames s2)" using k1 by (simp add: s2_def)
          note l1 = loadPage_fail [OF k1, of page pNum]
          note l2 = loadPage_fail [OF k2, of page pNum]
          show ?thesis
            using pp fail False k(2) m1 m2 l1 l2
            by (simp add: Let_def s1_def [symmetric] s2_def [symmetric] split: if_splits)
        qed
      qed
    qed
  qed
qed

text \<open>
  Claim C4, as amended. Let the pool be full (no frame holds \<open>pNum\<close>, no frame is empty)
  and let the selector choose frame \<open>v\<close>. If \<^verbatim>\<open>pinPage\<close> then fails, be it in the write-back
  of the victim, in the allocation of the buffer or in opening the page file for the
  load, frame \<open>v\<close> still holds the page number it held before: it is not empty, and no
  other frame has changed its page number either. The handle of the caller is untouched.
\<close>

theorem failed_pin_keeps_page:
  assumes "mgmtData s = Some fs" "0 \<le> sint pNum" "findPage fs pNum = None"
    and "findPage fs NO_PAGE = None" "fst (strategyForFIFOandLRU s) = int v"
    and "fst (pinPage s page pNum) \<noteq> RC_OK"
  shows "v < length fs \<and>
         pageNum (frames (fst (snd (pinPage s page pNum))) ! v) = pageNum (fs ! v) \<and>
         pageNum (fs ! v) \<noteq> NO_PAGE \<and>
         map pageNum (frames (fst (snd (pinPage s page pNum)))) = map pageNum fs \<and>
         snd (snd (pinPage s page pNum)) = page"
proof -
  note fs = frames_Some [OF assms(1)]
  from victim_valid [of s] assms(5) have v: "v < length fs" by (auto simp: fs)
  from assms(4) v have full: "pageNum (fs ! v) \<noteq> NO_PAGE" by (simp add: findPage_None)
  note pf = pinPage_fail [OF assms(1,6)]
  from pf have "map pageNum (frames (fst (snd (pinPage s page pNum)))) ! v = map pageNum fs ! v"
    by simp
  moreover from pf have "length (frames (fst (snd (pinPage s page pNum)))) = length fs"
    using length_map [of pageNum "frames (fst (snd (pinPage s page pNum)))"] by simp
  ultimately have "pageNum (frames (fst (snd (pinPage s page pNum))) ! v) = pageNum (fs ! v)"
    using v by simp
  with v full pf show ?thesis by simp
qed

lemma failing_run:
  "run (failing_pool 3) [InitBufferPool ''pages.bin'' 1 RS_FIFO, PinPage (handle 0) 5,
       MarkDirty (handle 5), UnpinPage (handle 5)] =
     \<lparr>pageFile = ''pages.bin'', strategy = RS_FIFO,
      mgmtData = Some
        [\<lparr>pageNum = 5, data = Some [], dirty = True, fixCounts = 0, strategyAttribute = Some 0\<rparr>],
      numberReadIO = 1, numberWriteIO = 0, buffertimer = 1, fopen_ok = (\<lambda>k. k \<noteq> 3), fopens = 2,
      calloc_ok = (\<lambda>k. True), callocs = 3, fread_in = (\<lambda>k. []),
      fwrite_ok = (\<lambda>k. True), written = []\<rparr>"
  by (simp add: failing_pool_def eval_simps)

theorem failed_pin_keeps_page_witness:
  "fst (pinPage (run (failing_pool 3) [InitBufferPool ''pages.bin'' 1 RS_FIFO, PinPage (handle 0) 5,
       MarkDirty (handle 5), UnpinPage (handle 5)]) (handle 0) 6) = RC_FILE_NOT_FOUND \<and>
   pageNum (frames (fst (snd (pinPage (run (failing_pool 3) [InitBufferPool ''pages.bin'' 1 RS_FIFO,
       PinPage (handle 0) 5, MarkDirty (handle 5), UnpinPage (handle 5)]) (handle 0) 6))) ! 0) = 5"
proof -
  let ?s = "run (failing_pool 3) [InitBufferPool ''pages.bin'' 1 RS_FIFO, PinPage (handle 0) 5,
       MarkDirty (handle 5), UnpinPage (handle 5)]"
  let ?fs = "[\<lparr>pageNum = 5, data = Some [], dirty = True, fixCounts = 0, strategyAttribute = Some 0\<rparr>]"
  have 1: "mgmtData ?s = Some ?fs" unfolding failing_run by simp
  have 2: "findPage ?fs 6 = None" "findPage ?fs NO_PAGE = None" by (simp_all add: NO_PAGE_def)
  have 3: "fst (strategyForFIFOandLRU ?s) = int 0"
    unfolding failing_run by (simp add: strategyForFIFOandLRU_def frames_def)
  have 4: "fst (pinPage ?s (handle 0) 6) = RC_FILE_NOT_FOUND"
    unfolding failing_run by (simp add: eval_simps)
  then have 5: "fst (pinPage ?s (handle 0) 6) \<noteq> RC_OK" by simp
  from failed_pin_keeps_page [OF 1 _ 2 3 5] 4 show ?thesis by simp
qed

text \<open>
  The claim leaves the frame empty. Below, the one frame of the pool holds page 5, dirty
  and unpinned; pinning page 6 writes page 5 back, and the \<^verbatim>\<open>fopen\<close> for the load then
  fails. The frame still holds page 5.
\<close>

theorem failed_pin_counterexample:
  "fst (pinPage (run (failing_pool 3) [InitBufferPool ''pages.bin'' 1 RS_FIFO, PinPage (handle 0) 5,
       MarkDirty (handle 5), UnpinPage (handle 5)]) (handle 0) 6) = RC_FILE_NOT_FOUND \<and>
   frames (fst (snd (pinPage (run (failing_pool 3) [InitBufferPool ''pages.bin'' 1 RS_FIFO,
       PinPage (handle 0) 5, MarkDirty (handle 5), UnpinPage (handle 5)]) (handle 0) 6))) =
     [\<lparr>pageNum = 5, data = Some [], dirty = False, fixCounts = 0, strategyAttribute = Some 0\<rparr>] \<and>
   written (fst (snd (pinPage (run (failing_pool 3) [InitBufferPool ''pages.bin'' 1 RS_FIFO,
       PinPage (handle 0) 5, MarkDirty (handle 5), UnpinPage (handle 5)]) (handle 0) 6))) =
     [(5 * PAGE_SIZE, Some [])] \<and>
   pageNum \<lparr>pageNum = 5, data = Some [], dirty = False, fixCounts = 0,
            strategyAttribute = Some (0::c_int)\<rparr> \<noteq> NO_PAGE"
  unfolding failing_run by (simp add: eval_simps)

section \<open>Claim C7: forcePage\<close>

text \<open>
  Claim C7, as amended. \<^verbatim>\<open>forcePage\<close> returns \<^verbatim>\<open>RC_PAGE_NOT_FOUND\<close> and changes nothing
  when no frame holds the page number of the handle. Otherwise, with \<open>i\<close> the first frame
  that holds it, and whatever the dirty flag and the fix count of that frame are: if the
  page file opens, the buffer of frame \<open>i\<close> is written at offset
  \<open>pageNum * PAGE_SIZE\<close>, the write counter grows by one, the dirty flag of frame \<open>i\<close> is
  cleared and nothing else changes; if it does not open, the result is
  \<^verbatim>\<open>RC_FILE_NOT_FOUND\<close> and no frame changes.
\<close>

theorem forcePage_writes:
  assumes "mgmtData s = Some fs"
  shows "(findPage fs (pageNum page) = None \<longrightarrow> forcePage s page = (RC_PAGE_NOT_FOUND, s)) \<and>
         (\<forall>i. findPage fs (pageNum page) = Some i \<and> fopen_ok s (fopens s) \<longrightarrow>
            forcePage s page =
              (RC_OK,
               s\<lparr>fopens := Suc (fopens s),
                 written := written s @ [(pageNum page * PAGE_SIZE, data (fs ! i))],
                 numberWriteIO := numberWriteIO s + 1,
                 mgmtData := Some (fs[i := (fs ! i)\<lparr>dirty := False\<rparr>])\<rparr>)) \<and>
         (\<forall>i. findPage fs (pageNum page) = Some i \<and> \<not> fopen_ok s (fopens s) \<longrightarrow>
            forcePage s page = (RC_FILE_NOT_FOUND, s\<lparr>fopens := Suc (fopens s)\<rparr>))"
  using assms by (simp add: forcePage_def)

theorem forcePage_writes_witness:
  "forcePage (run fresh_pool [InitBufferPool ''pages.bin'' 2 RS_FIFO, PinPage (handle 0) 4])
      (handle 9) =
     (RC_PAGE_NOT_FOUND,
      run fresh_pool [InitBufferPool ''pages.bin'' 2 RS_FIFO, PinPage (handle 0) 4]) \<and>
   fst (forcePage (run fresh_pool [InitBufferPool ''pages.bin'' 2 RS_FIFO, PinPage (handle 0) 4])
      (handle 4)) = RC_OK \<and>
   written (snd (forcePage
      (run fresh_pool [InitBufferPool ''pages.bin'' 2 RS_FIFO, PinPage (handle 0) 4])
      (handle 4))) = [(4 * PAGE_SIZE, Some [])] \<and>
   fst (forcePage (run (failing_pool 3) [InitBufferPool ''pages.bin'' 2 RS_FIFO, PinPage (handle 0) 4,
      ForcePage (handle 4)]) (handle 4)) = RC_FILE_NOT_FOUND"
proof -
  let ?s = "run fresh_pool [InitBufferPool ''pages.bin'' 2 RS_FIFO, PinPage (handle 0) 4]"
  let ?t = "run (failing_pool 3) [InitBufferPool ''pages.bin'' 2 RS_FIFO, PinPage (handle 0) 4,
      ForcePage (handle 4)]"
  let ?fs = "[\<lparr>pageNum = 4, data = Some [], dirty = False, fixCounts = 1, strategyAttribute = Some 0\<rparr>,
              empty_frame]"
  have s: "mgmtData ?s = Some ?fs" "written ?s = []" "fopen_ok ?s (fopens ?s)"
    by (simp_all add: eval_simps)
  have t: "mgmtData ?t = Some ?fs" "\<not> fopen_ok ?t (fopens ?t)"
    by (simp_all add: failing_pool_def eval_simps)
  have f: "findPage ?fs (pageNum (handle 9)) = None" "findPage ?fs (pageNum (handle 4)) = Some 0"
    by (simp_all add: handle_def empty_frame_def NO_PAGE_def)
  note a = forcePage_writes [OF s(1), of "handle 9", THEN conjunct1, THEN mp, OF f(1)]
  note b = forcePage_writes [OF s(1), of "handle 4", THEN conjunct2, THEN conjunct1, THEN spec,
      of 0, THEN mp, OF conjI [OF f(2) s(3)]]
  note c = forcePage_writes [OF t(1), of "handle 4", THEN conjunct2, THEN conjunct2, THEN spec,
      of 0, THEN mp, OF conjI [OF f(2) t(2)]]
  show ?thesis unfolding a b c using s(2) by (simp add: handle_def)
qed

text \<open>
  The claim has a pinned frame skipped, and a clean one. Below, page 4 is pinned (fix
  count 1) and dirty; \<^verbatim>\<open>forcePage\<close> writes it and clears the flag. Called once more, on
  the now clean and still pinned frame, it writes again.
\<close>

theorem forcePage_counterexample:
  "frames (run fresh_pool [InitBufferPool ''pages.bin'' 1 RS_FIFO, PinPage (handle 0) 4,
      MarkDirty (handle 4)]) =
     [\<lparr>pageNum = 4, data = Some [], dirty = True, fixCounts = 1, strategyAttribute = Some 0\<rparr>] \<and>
   fst (forcePage (run fresh_pool [InitBufferPool ''pages.bin'' 1 RS_FIFO, PinPage (handle 0) 4,
      MarkDirty (handle 4)]) (handle 4)) = RC_OK \<and>
   frames (snd (forcePage (run fresh_pool [InitBufferPool ''pages.bin'' 1 RS_FIFO,
      PinPage (handle 0) 4, MarkDirty (handle 4)]) (handle 4))) =
     [\<lparr>pageNum = 4, data = Some [], dirty = False, fixCounts = 1, strategyAttribute = Some 0\<rparr>] \<and>
   written (snd (forcePage (run fresh_pool [InitBufferPool ''pages.bin'' 1 RS_FIFO,
      PinPage (handle 0) 4, MarkDirty (handle 4)]) (handle 4))) = [(4 * PAGE_SIZE, Some [])] \<and>
   written (run fresh_pool [InitBufferPool ''pages.bin'' 1 RS_FIFO, PinPage (handle 0) 4,
      MarkDirty (handle 4), ForcePage (handle 4), ForcePage (handle 4)]) =
     [(4 * PAGE_SIZE, Some []), (4 * PAGE_SIZE, Some [])]"
  by (simp add: eval_simps)

section \<open>Claim C8: pinning a resident page\<close>




section \<open>Claim C9: the sentinel as a target\<close>

text \<open>
  Claim C9. In a state reached from a pool that is not initialised, let \<open>i\<close> be the first
  empty frame, and let the handle name the sentinel \<open>NO_PAGE\<close>. Then \<^verbatim>\<open>markDirty\<close> returns
  \<^verbatim>\<open>RC_OK\<close> and sets the dirty flag of frame \<open>i\<close>; \<^verbatim>\<open>unpinPage\<close> returns
  \<^verbatim>\<open>RC_PAGE_NOT_PINNED\<close> and changes nothing; \<^verbatim>\<open>forcePage\<close> reaches the \<^verbatim>\<open>fopen\<close> of line
  186 and returns \<^verbatim>\<open>RC_OK\<close> or \<^verbatim>\<open>RC_FILE_NOT_FOUND\<close>. None of them returns
  \<^verbatim>\<open>RC_PAGE_NOT_FOUND\<close>.
\<close>

theorem sentinel_target:
  assumes "mgmtData s0 = None" "s = run s0 xs" "mgmtData s = Some fs"
    and "findPage fs NO_PAGE = Some i" "pageNum page = NO_PAGE"
  shows "markDirty s page = (RC_OK, s\<lparr>mgmtData := Some (fs[i := (fs ! i)\<lparr>dirty := True\<rparr>])\<rparr>) \<and>
         unpinPage s page = (RC_PAGE_NOT_PINNED, s) \<and>
         fst (forcePage s page) = (if fopen_ok s (fopens s) then RC_OK else RC_FILE_NOT_FOUND) \<and>
         frames (snd (forcePage s page)) =
           (if fopen_ok s (fopens s) then fs[i := (fs ! i)\<lparr>dirty := False\<rparr>] else fs)"
proof -
  from findPage_Some [OF assms(4)] have i: "i < length fs" "pageNum (fs ! i) = NO_PAGE" by simp_all
  from pool_inv_reachable [OF assms(1), of xs] assms(2,3) have "inv_pinned fs"
    by (simp add: pool_inv_def frames_def)
  from inv_pinned_nth [OF this i(1)] i(2) have "fixCounts (fs ! i) = 0" by auto
  then show ?thesis
    using assms(3,4,5) by (simp add: markDirty_def unpinPage_def forcePage_def frames_def)
qed

theorem sentinel_target_witness:
  "markDirty (run fresh_pool [InitBufferPool ''pages.bin'' 2 RS_FIFO, PinPage (handle 0) 4])
      (handle NO_PAGE) =
     (RC_OK,
      (run fresh_pool [InitBufferPool ''pages.bin'' 2 RS_FIFO, PinPage (handle 0) 4])
        \<lparr>mgmtData := Some
           [\<lparr>pageNum = 4, data = Some [], dirty = False, fixCounts = 1, strategyAttribute = Some 0\<rparr>,
            empty_frame\<lparr>dirty := True\<rparr>]\<rparr>) \<and>
   unpinPage (run fresh_pool [InitBufferPool ''pages.bin'' 2 RS_FIFO, PinPage (handle 0) 4])
      (handle NO_PAGE) =
     (RC_PAGE_NOT_PINNED, run fresh_pool [InitBufferPool ''pages.bin'' 2 RS_FIFO, PinPage (handle 0) 4]) \<and>
   fst (forcePage (run fresh_pool [InitBufferPool ''pages.bin'' 2 RS_FIFO, PinPage (handle 0) 4])
      (handle NO_PAGE)) = RC_OK"
proof -
  let ?s = "run fresh_pool [InitBufferPool ''pages.bin'' 2 RS_FIFO, PinPage (handle 0) 4]"
  let ?fs = "[\<lparr>pageNum = 4, data = Some [], dirty = False, fixCounts = 1, strategyAttribute = Some 0\<rparr>,
              empty_frame]"
  have 0: "mgmtData fresh_pool = None" by (simp add: fresh_pool_def)
  have 1: "mgmtData ?s = Some ?fs" and o: "fopen_ok ?s (fopens ?s)"
    by (simp_all add: eval_simps)
  have 2: "findPage ?fs NO_PAGE = Some 1" by (simp add: empty_frame_def NO_PAGE_def)
  have 3: "pageNum (handle NO_PAGE) = NO_PAGE" by (simp add: handle_def)
  from sentinel_target [OF 0 refl 1 2 3] o show ?thesis by simp
qed

section \<open>Claim C5: the FIFO scenario\<close>

text \<open>
  Claim C5, as amended. Take any environment in which every \<^verbatim>\<open>fopen\<close> and \<^verbatim>\<open>calloc\<close>
  succeeds, and initialise a pool of three frames with \<^verbatim>\<open>RS_FIFO\<close>. Pinning pages 0, 1
  and 2 fills the three frames in this order, with three reads and no write. Once page
  0 has been unpinned (alone, or together with pages 1 and 2), pinning page 3 returns
  \<^verbatim>\<open>RC_OK\<close>, puts page 3 into frame 0, which held page 0, and leaves the read counter at 4.
\<close>

theorem fifo_scenario:
  assumes "\<forall>k. fopen_ok s0 k" "\<forall>k. calloc_ok s0 k"
  shows "map pageNum (frames (run s0 [InitBufferPool name 3 RS_FIFO, PinPage h 0, PinPage h 1,
            PinPage h 2])) = [0, 1, 2] \<and>
         numberReadIO (run s0 [InitBufferPool name 3 RS_FIFO, PinPage h 0, PinPage h 1,
            PinPage h 2]) = 3 \<and>
         numberWriteIO (run s0 [InitBufferPool name 3 RS_FIFO, PinPage h 0, PinPage h 1,
            PinPage h 2]) = 0 \<and>
         written (run s0 [InitBufferPool name 3 RS_FIFO, PinPage h 0, PinPage h 1,
            PinPage h 2]) = written s0 \<and>
         fst (pinPage (run s0 [InitBufferPool name 3 RS_FIFO, PinPage h 0, PinPage h 1,
            PinPage h 2, UnpinPage (handle 0), UnpinPage (handle 1), UnpinPage (handle 2)]) h 3)
           = RC_OK \<and>
         map pageNum (frames (run s0 [InitBufferPool name 3 RS_FIFO, PinPage h 0, PinPage h 1,
            PinPage h 2, UnpinPage (handle 0), UnpinPage (handle 1), UnpinPage (handle 2),
            PinPage h 3])) = [3, 1, 2] \<and>
         numberReadIO (run s0 [InitBufferPool name 3 RS_FIFO, PinPage h 0, PinPage h 1,
            PinPage h 2, UnpinPage (handle 0), UnpinPage (handle 1), UnpinPage (handle 2),
            PinPage h 3]) = 4 \<and>
         map pageNum (frames (run s0 [InitBufferPool name 3 RS_FIFO, PinPage h 0, PinPage h 1,
            PinPage h 2, UnpinPage (handle 0), PinPage h 3])) = [3, 1, 2] \<and>
         numberReadIO (run s0 [InitBufferPool name 3 RS_FIFO, PinPage h 0, PinPage h 1,
            PinPage h 2, UnpinPage (handle 0), PinPage h 3]) = 4"
  using assms
  by (simp add: handle_def empty_frame_def NO_PAGE_def initBufferPool_def
      pinPage_def loadPage_def updateBfrAtrbt_def frames_def put_frame_def Let_def
      strategyForFIFOandLRU_def normalizeTimer_def forcePage_def unpinPage_def
      replicate_num list_update_num)

theorem fifo_scenario_witness:
  "map pageNum (frames (run fresh_pool [InitBufferPool ''pages.bin'' 3 RS_FIFO,
      PinPage (handle 0) 0, PinPage (handle 0) 1, PinPage (handle 0) 2, UnpinPage (handle 0),
      UnpinPage (handle 1), UnpinPage (handle 2), PinPage (handle 0) 3])) = [3, 1, 2] \<and>
   numberReadIO (run fresh_pool [InitBufferPool ''pages.bin'' 3 RS_FIFO,
      PinPage (handle 0) 0, PinPage (handle 0) 1, PinPage (handle 0) 2, UnpinPage (handle 0),
      UnpinPage (handle 1), UnpinPage (handle 2), PinPage (handle 0) 3]) = 4"
proof -
  have "\<forall>k. fopen_ok fresh_pool k" "\<forall>k. calloc_ok fresh_pool k"
    by (simp_all add: fresh_pool_def)
  from fifo_scenario [OF this, of "''pages.bin''" "handle 0"] show ?thesis by simp
qed

text \<open>
  The sequence of the claim has no unpin. After the three pins every frame has fix count
  1, so the pin of page 3 finds no victim: it returns \<^verbatim>\<open>RC_NO_AVAILABLE_FRAME\<close>, frame 0
  still holds page 0 and the read counter stays at 3.
\<close>

theorem fifo_scenario_counterexample:
  "fst (pinPage (run fresh_pool [InitBufferPool ''pages.bin'' 3 RS_FIFO, PinPage (handle 0) 0,
      PinPage (handle 0) 1, PinPage (handle 0) 2]) (handle 0) 3) = RC_NO_AVAILABLE_FRAME \<and>
   frames (run fresh_pool [InitBufferPool ''pages.bin'' 3 RS_FIFO, PinPage (handle 0) 0,
      PinPage (handle 0) 1, PinPage (handle 0) 2, PinPage (handle 0) 3]) =
     [\<lparr>pageNum = 0, data = Some [], dirty = False, fixCounts = 1, strategyAttribute = Some 0\<rparr>,
      \<lparr>pageNum = 1, data = Some [], dirty = False, fixCounts = 1, strategyAttribute = Some 1\<rparr>,
      \<lparr>pageNum = 2, data = Some [], dirty = False, fixCounts = 1, strategyAttribute = Some 2\<rparr>] \<and>
   numberReadIO (run fresh_pool [InitBufferPool ''pages.bin'' 3 RS_FIFO, PinPage (handle 0) 0,
      PinPage (handle 0) 1, PinPage (handle 0) 2, PinPage (handle 0) 3]) = 3"
  by (simp add: eval_simps)

section \<open>Claim C6: forceFlushPool\<close>



lemma cleanFrames_Nil [simp]: "cleanFrames [] fs = fs"
  by (simp add: cleanFrames_def map_nth)

lemma length_cleanFrames [simp]: "length (cleanFrames B fs) = length fs"
  by (simp add: cleanFrames_def)








section \<open>Claim C10: the clock and the attributes\<close>

lemma overflow_ops_run:
  "run fresh_pool overflow_ops =
     \<lparr>pageFile = ''pages.bin'', strategy = RS_LRU,
      mgmtData = Some
        [\<lparr>pageNum = 0, data = Some [], dirty = False, fixCounts = 0,
          strategyAttribute = Some 2147483647\<rparr>],
      numberReadIO = 1, numberWriteIO = 0, buffertimer = - 2147483648, fopen_ok = (\<lambda>k. True),
      fopens = 2, calloc_ok = (\<lambda>k. True), callocs = 3, fread_in = (\<lambda>k. []),
      fwrite_ok = (\<lambda>k. True), written = []\<rparr>"
proof -
  let ?A = "\<lparr>pageFile = ''pages.bin'', strategy = RS_LRU,
      mgmtData = Some
        [\<lparr>pageNum = 0, data = Some [], dirty = False, fixCounts = 0, strategyAttribute = Some 0\<rparr>],
      numberReadIO = 1, numberWriteIO = 0, buffertimer = 1, fopen_ok = (\<lambda>k. True), fopens = 2,
      calloc_ok = (\<lambda>k. True), callocs = 3, fread_in = (\<lambda>k. []),
      fwrite_ok = (\<lambda>k. True), written = []\<rparr>"
  have a: "run fresh_pool [InitBufferPool ''pages.bin'' 1 RS_LRU, PinPage (handle 0) 0,
             UnpinPage (handle 0)] = ?A"
    by (simp add: eval_simps)
  have "run ?A (concat (replicate (Suc 2147483646) [PinPage (handle 0) 0, UnpinPage (handle 0)])) =
      ?A\<lparr>buffertimer := - 2147483648,
         mgmtData := Some
          [\<lparr>pageNum = 0, data = Some [], dirty = False, fixCounts = 0,
            strategyAttribute = Some 2147483647\<rparr>]\<rparr>"
    using run_pairs_LRU [of ?A _ 0 0 "handle 0" 2147483646 "handle 0"] by (simp add: handle_def)
  then have b: "run ?A (concat (replicate 2147483647 [PinPage (handle 0) 0, UnpinPage (handle 0)])) =
      ?A\<lparr>buffertimer := - 2147483648,
         mgmtData := Some
          [\<lparr>pageNum = 0, data = Some [], dirty = False, fixCounts = 0,
            strategyAttribute = Some 2147483647\<rparr>]\<rparr>"
    by simp
  show ?thesis
    unfolding overflow_ops_def run_append a b by simp
qed

text \<open>
  Claim C10 (clock dominance) fails on the code. A hit under LRU stamps the frame and
  increments the clock (lines 461-462) without passing through the normalisation of lines
  394-403, which only the selector runs. Take a pool of one frame under \<^verbatim>\<open>RS_LRU\<close>, pin and
  unpin page 0 once, and then \<open>2\<^sup>3\<^sup>1 - 1\<close> times more. The last increment takes the 32-bit
  clock from 2147483647 to -2147483648, while the attribute of the frame is 2147483647:
  the attribute is above the clock. The frame is unpinned, yet the selector, whose running
  minimum starts at the clock, rejects it and returns -1, and pinning page 1 fails with
  \<^verbatim>\<open>RC_NO_AVAILABLE_FRAME\<close>.
\<close>

theorem clock_overflow:
  "frames (run fresh_pool overflow_ops) =
     [\<lparr>pageNum = 0, data = Some [], dirty = False, fixCounts = 0,
       strategyAttribute = Some 2147483647\<rparr>] \<and>
   sint (buffertimer (run fresh_pool overflow_ops)) = - 2147483648 \<and>
   sint (2147483647 :: c_int) = 2147483647 \<and>
   fst (strategyForFIFOandLRU (run fresh_pool overflow_ops)) = - 1 \<and>
   fst (pinPage (run fresh_pool overflow_ops) (handle 0) 1) = RC_NO_AVAILABLE_FRAME"
  unfolding overflow_ops_run by (simp add: eval_simps)

end
